theory Spec2Isabelle
  imports Complex_Main
begin

section \<open>Data model of \<^verbatim>\<open>src/rrt_star.py\<close>\<close>

text \<open>
  Floating-point numbers are modelled as reals, Python's unbounded integers as \<open>int\<close>.
  A world point is a pair of coordinates, a grid cell a pair of integers \<open>(x, y)\<close>.
  Exceptions are values of \<open>py_error\<close>; a computation that may raise and may run
  forever has type \<open>'a result\<close>: \<open>None\<close> is a run that never returns, \<open>Some (Inl e)\<close>
  a raised exception and \<open>Some (Inr v)\<close> a returned value.
\<close>

type_synonym point = "real \<times> real"

type_synonym cell = "int \<times> int"

datatype py_error = IndexError | KeyError | ValueError | OverflowError

type_synonym 'a result = "(py_error + 'a) option"

text \<open>The two geometries the planner builds with shapely: \<open>Point(p)\<close> and
  \<open>LineString([p1, p2])\<close>.\<close>

datatype geom = Point point | LineString point point

text \<open>An obstacle is a shapely object; the planner only calls its two predicates
  \<open>contains\<close> and \<open>intersects\<close>, which are taken as parameters.\<close>

record obstacle =
  contains :: "geom \<Rightarrow> bool"
  intersects :: "geom \<Rightarrow> bool"

text \<open>A two-dimensional numpy array: its shape \<open>(shape0, shape1)\<close> and its items.\<close>

record ndarray =
  shape0 :: nat
  shape1 :: nat
  item :: "nat \<Rightarrow> nat \<Rightarrow> real"

text \<open>The attributes \<open>__init__\<close> stores and \<open>find_path\<close> never changes.\<close>

record planner =
  start :: point
  goal :: point
  obstacles :: "obstacle list"
  grid :: ndarray
  max_iter :: int
  step_size :: real
  neighbor_radius :: real
  grid_scale :: real
  traversability_threshold :: real
  simplify :: bool

text \<open>The attributes \<open>find_path\<close> mutates: the list \<open>nodes\<close> and the dictionaries
  \<open>parent\<close> (whose values are an index or Python's \<open>None\<close>) and \<open>cost\<close>.\<close>

record tree =
  nodes :: "point list"
  parent :: "nat \<rightharpoonup> nat option"
  cost :: "nat \<rightharpoonup> real"

definition goal_tolerance :: "planner \<Rightarrow> real" where
  "goal_tolerance P = step_size P / 2"

definition init_tree :: "planner \<Rightarrow> tree" where
  "init_tree P = \<lparr>nodes = [start P], parent = [0 \<mapsto> None], cost = [0 \<mapsto> 0]\<rparr>"

subsection \<open>The result monad\<close>

definition bind_r :: "'a result \<Rightarrow> ('a \<Rightarrow> 'b result) \<Rightarrow> 'b result" where
  "bind_r m f = (case m of None \<Rightarrow> None | Some (Inl e) \<Rightarrow> Some (Inl e) | Some (Inr v) \<Rightarrow> f v)"

definition raise :: "py_error \<Rightarrow> 'a result" where
  "raise e = Some (Inl e)"

definition return :: "'a \<Rightarrow> 'a result" where
  "return v = Some (Inr v)"

subsection \<open>Python and numpy primitives\<close>

text \<open>\<open>int(r)\<close> on a float truncates towards zero.\<close>

definition py_int :: "real \<Rightarrow> int" where
  "py_int r = (if 0 \<le> r then \<lfloor>r\<rfloor> else \<lceil>r\<rceil>)"

text \<open>\<open>int(v / grid_scale)\<close>: numpy division by zero yields \<open>nan\<close> (for \<open>0 / 0\<close>) or an
  infinity, and \<open>int\<close> raises \<open>ValueError\<close> on the first and \<open>OverflowError\<close> on the
  second.\<close>

definition grid_index :: "planner \<Rightarrow> real \<Rightarrow> py_error + int" where
  "grid_index P v =
     (if grid_scale P = 0 then Inl (if v = 0 then ValueError else OverflowError)
      else Inr (py_int (v / grid_scale P)))"

text \<open>The pair \<open>(int(p[0] / grid_scale), int(p[1] / grid_scale))\<close>.\<close>

definition to_cell :: "planner \<Rightarrow> point \<Rightarrow> py_error + cell" where
  "to_cell P p =
     (case grid_index P (fst p) of Inl e \<Rightarrow> Inl e
      | Inr cx \<Rightarrow> (case grid_index P (snd p) of Inl e \<Rightarrow> Inl e | Inr cy \<Rightarrow> Inr (cx, cy)))"

text \<open>numpy indexing along one axis of length \<open>n\<close>: a negative index counts from the
  end, an index outside \<open>[-n, n)\<close> raises \<open>IndexError\<close>.\<close>

definition np_index :: "nat \<Rightarrow> int \<Rightarrow> py_error + nat" where
  "np_index n i =
     (if 0 \<le> i \<and> i < int n then Inr (nat i)
      else if - int n \<le> i \<and> i < 0 then Inr (nat (i + int n))
      else Inl IndexError)"

text \<open>\<open>a[i, j]\<close>.\<close>

definition getitem :: "ndarray \<Rightarrow> int \<Rightarrow> int \<Rightarrow> py_error + real" where
  "getitem a i j =
     (case np_index (shape0 a) i of Inl e \<Rightarrow> Inl e
      | Inr r \<Rightarrow> (case np_index (shape1 a) j of Inl e \<Rightarrow> Inl e | Inr c \<Rightarrow> Inr (item a r c)))"

text \<open>\<open>np.linalg.norm(b - a)\<close> for two points.\<close>

definition dist_pt :: "point \<Rightarrow> point \<Rightarrow> real" where
  "dist_pt a b = sqrt ((fst b - fst a) * (fst b - fst a) + (snd b - snd a) * (snd b - snd a))"

section \<open>\<open>_bresenham\<close>\<close>

text \<open>The two \<open>while\<close> loops of \<open>_bresenham\<close>; \<open>line\<close> is the list being appended to.\<close>

partial_function (option) bres_x ::
  "int \<Rightarrow> int \<Rightarrow> int \<Rightarrow> int \<Rightarrow> int \<Rightarrow> int \<Rightarrow> int \<Rightarrow> real \<Rightarrow> cell list \<Rightarrow> cell list option" where
  "bres_x x1 dx dy sx sy x y err line =
     (if x \<noteq> x1 then
        (if err - real_of_int dy < 0
         then bres_x x1 dx dy sx sy (x + sx) (y + sy) (err - real_of_int dy + real_of_int dx)
                (line @ [(x, y)])
         else bres_x x1 dx dy sx sy (x + sx) y (err - real_of_int dy) (line @ [(x, y)]))
      else Some line)"

partial_function (option) bres_y ::
  "int \<Rightarrow> int \<Rightarrow> int \<Rightarrow> int \<Rightarrow> int \<Rightarrow> int \<Rightarrow> int \<Rightarrow> real \<Rightarrow> cell list \<Rightarrow> cell list option" where
  "bres_y y1 dx dy sx sy x y err line =
     (if y \<noteq> y1 then
        (if err - real_of_int dx < 0
         then bres_y y1 dx dy sx sy (x + sx) (y + sy) (err - real_of_int dx + real_of_int dy)
                (line @ [(x, y)])
         else bres_y y1 dx dy sx sy x (y + sy) (err - real_of_int dx) (line @ [(x, y)]))
      else Some line)"

definition bresenham :: "cell \<Rightarrow> cell \<Rightarrow> cell list option" where
  "bresenham s g =
     (case s of (x0, y0) \<Rightarrow> case g of (x1, y1) \<Rightarrow>
        let dx = \<bar>x1 - x0\<bar>;
            dy = \<bar>y1 - y0\<bar>;
            sx = (if x0 > x1 then - 1 else 1);
            sy = (if y0 > y1 then - 1 else 1)
        in if dx > dy then bres_x x1 dx dy sx sy x0 y0 (real_of_int dx / 2) []
           else bres_y y1 dx dy sx sy x0 y0 (real_of_int dy / 2) [])"

section \<open>\<open>_is_collision\<close>\<close>

text \<open>The loop over the obstacles: true as soon as one contains or intersects the
  geometry.\<close>

definition hits_obstacle :: "planner \<Rightarrow> geom \<Rightarrow> bool" where
  "hits_obstacle P g = list_ex (\<lambda>ob. contains ob g \<or> intersects ob g) (obstacles P)"

text \<open>The loop over \<open>bres_line\<close>: it is left (\<open>break\<close>) at the first cell with
  \<open>0 < x < grid_shape[1]\<close> and \<open>0 < y < grid_shape[0]\<close>; any other cell reads
  \<open>grid[x - 1, y - 1]\<close>.\<close>

fun scan_line :: "planner \<Rightarrow> cell list \<Rightarrow> py_error + bool" where
  "scan_line P [] = Inr False"
| "scan_line P (pt # rest) =
     (if 0 < fst pt \<and> fst pt < int (shape1 (grid P)) \<and> 0 < snd pt \<and> snd pt < int (shape0 (grid P))
      then Inr False
      else (case getitem (grid P) (fst pt - 1) (snd pt - 1) of
              Inl e \<Rightarrow> Inl e
            | Inr v \<Rightarrow> if v \<ge> traversability_threshold P then Inr True else scan_line P rest))"

definition is_collision :: "planner \<Rightarrow> point \<Rightarrow> point option \<Rightarrow> bool result" where
  "is_collision P point1 point2 =
     (let geom = (case point2 of None \<Rightarrow> Point point1 | Some p2 \<Rightarrow> LineString point1 p2)
      in if hits_obstacle P geom then Some (Inr True)
         else (case point2 of
                 None \<Rightarrow> Some (Inr False)
               | Some p2 \<Rightarrow>
                   (case to_cell P point1 of Inl e \<Rightarrow> Some (Inl e)
                    | Inr p1_grid \<Rightarrow>
                        (case to_cell P p2 of Inl e \<Rightarrow> Some (Inl e)
                         | Inr p2_grid \<Rightarrow>
                             (case bresenham p1_grid p2_grid of None \<Rightarrow> None
                              | Some bres_line \<Rightarrow> Some (scan_line P bres_line))))))"

section \<open>\<open>_get_grid_cost\<close> and \<open>_path_cost\<close>\<close>

definition get_grid_cost :: "planner \<Rightarrow> point \<Rightarrow> py_error + real" where
  "get_grid_cost P p =
     (case grid_index P (snd p) of Inl e \<Rightarrow> Inl e
      | Inr iy \<Rightarrow>
          (case grid_index P (fst p) of Inl e \<Rightarrow> Inl e
           | Inr ix \<Rightarrow>
               let i = min iy (int (shape0 (grid P)) - 1);
                   j = min ix (int (shape1 (grid P)) - 1);
                   i = max 0 i;
                   j = max 0 j
               in getitem (grid P) i j))"

text \<open>The loop of \<open>_path_cost\<close> over the cells, with its two accumulators.\<close>

fun sum_cells :: "planner \<Rightarrow> cell list \<Rightarrow> real \<Rightarrow> nat \<Rightarrow> py_error + (real \<times> nat)" where
  "sum_cells P [] total_cost valid_cells = Inr (total_cost, valid_cells)"
| "sum_cells P (c # cells) total_cost valid_cells =
     (if 0 \<le> snd c \<and> snd c < int (shape0 (grid P)) \<and> 0 \<le> fst c \<and> fst c < int (shape1 (grid P))
      then (case getitem (grid P) (snd c) (fst c) of
              Inl e \<Rightarrow> Inl e
            | Inr v \<Rightarrow> sum_cells P cells (total_cost + v) (valid_cells + 1))
      else sum_cells P cells total_cost valid_cells)"

definition path_cost :: "planner \<Rightarrow> point \<Rightarrow> point \<Rightarrow> real result" where
  "path_cost P a b =
     (let distance = dist_pt a b
      in case to_cell P a of Inl e \<Rightarrow> Some (Inl e)
         | Inr start_grid \<Rightarrow>
             (case to_cell P b of Inl e \<Rightarrow> Some (Inl e)
              | Inr end_grid \<Rightarrow>
                  (case bresenham start_grid end_grid of None \<Rightarrow> None
                   | Some cells \<Rightarrow>
                       (case sum_cells P cells 0 0 of Inl e \<Rightarrow> Some (Inl e)
                        | Inr (total_cost, valid_cells) \<Rightarrow>
                            let avg_cost = (if valid_cells > 0 then total_cost / real valid_cells else 0)
                            in Some (Inr (distance * (1 + avg_cost)))))))"

section \<open>Sampling, nearest node, steering, near nodes\<close>

text \<open>The random source is a stream \<open>rng\<close> of the values \<open>random.random()\<close> returns,
  read at position \<open>k\<close>; \<open>random.uniform(a, b)\<close> is \<open>a + (b - a) * random()\<close>.\<close>

definition uniform :: "real \<Rightarrow> real \<Rightarrow> real \<Rightarrow> real" where
  "uniform a b r = a + (b - a) * r"

lemma bind_r_mono [partial_function_mono]:
  fixes B :: "('a \<Rightarrow> 'b option) \<Rightarrow> 'c result"
  assumes "mono_option B" and "\<And>y. mono_option (\<lambda>f. C y f)"
  shows "mono_option (\<lambda>f. bind_r (B f) (\<lambda>y. C y f))"
proof (rule monotoneI)
  fix f g :: "'a \<Rightarrow> 'b option"
  assume le: "option.le_fun f g"
  have b: "B f = None \<or> B f = B g"
    using assms(1) le unfolding monotone_def by (auto simp: flat_ord_def)
  have c: "C y f = None \<or> C y f = C y g" for y
    using assms(2)[of y] le unfolding monotone_def by (auto simp: flat_ord_def)
  show "option_ord (bind_r (B f) (\<lambda>y. C y f)) (bind_r (B g) (\<lambda>y. C y g))"
  proof (cases "B f")
    case None
    then show ?thesis by (simp add: flat_ord_def bind_r_def)
  next
    case (Some r)
    with b have "B g = Some r" by simp
    with Some c show ?thesis
      by (cases r) (auto simp: flat_ord_def bind_r_def)
  qed
qed

text \<open>The rejection loop of \<open>_sample_point\<close>; it returns the point and the new position
  in the random stream.\<close>

partial_function (option) sample_point ::
  "planner \<Rightarrow> (nat \<Rightarrow> real) \<Rightarrow> nat \<Rightarrow> (point \<times> nat) result" where
  "sample_point P rng k =
     (let x = uniform 0 (real (shape1 (grid P)) * grid_scale P) (rng k);
          y = uniform 0 (real (shape0 (grid P)) * grid_scale P) (rng (k + 1));
          point = (x, y)
      in case get_grid_cost P point of
           Inl e \<Rightarrow> Some (Inl e)
         | Inr c \<Rightarrow>
             if c < traversability_threshold P
             then bind_r (is_collision P point None)
                    (\<lambda>blocked. if \<not> blocked then return (point, k + 2)
                                else sample_point P rng (k + 2))
             else sample_point P rng (k + 2))"

text \<open>\<open>xs[i]\<close> for a list and \<open>d[k]\<close> for a dictionary.\<close>

definition nth_r :: "'a list \<Rightarrow> nat \<Rightarrow> py_error + 'a" where
  "nth_r xs i = (if i < length xs then Inr (xs ! i) else Inl IndexError)"

definition lookup :: "('k \<rightharpoonup> 'v) \<Rightarrow> 'k \<Rightarrow> py_error + 'v" where
  "lookup d k = (case d k of None \<Rightarrow> Inl KeyError | Some v \<Rightarrow> Inr v)"

text \<open>\<open>xs.index(v)\<close>: the first position of \<open>v\<close>.\<close>

fun list_index :: "'a list \<Rightarrow> 'a \<Rightarrow> py_error + nat" where
  "list_index [] v = Inl ValueError"
| "list_index (x # xs) v =
     (if x = v then Inr 0
      else (case list_index xs v of Inl e \<Rightarrow> Inl e | Inr i \<Rightarrow> Inr (Suc i)))"

text \<open>\<open>min(xs)\<close> raises \<open>ValueError\<close> on an empty list.\<close>

definition nearest_node :: "tree \<Rightarrow> point \<Rightarrow> py_error + nat" where
  "nearest_node t p =
     (let distances = map (\<lambda>node. dist_pt p node) (nodes t)
      in if distances = [] then Inl ValueError
         else list_index distances (min_list distances))"

text \<open>In \<open>_steer\<close> a zero distance with a step size that is not positive divides zero by
  zero; numpy returns \<open>nan\<close> coordinates there, the model the start point.\<close>

definition steer :: "planner \<Rightarrow> point \<Rightarrow> point \<Rightarrow> point" where
  "steer P s target =
     (let direction = (fst target - fst s, snd target - snd s);
          distance = dist_pt s target
      in if distance < step_size P then target
         else (fst s + fst direction / distance * step_size P,
               snd s + snd direction / distance * step_size P))"

definition get_near_nodes :: "planner \<Rightarrow> tree \<Rightarrow> point \<Rightarrow> nat list" where
  "get_near_nodes P t new_point =
     filter (\<lambda>i. dist_pt new_point (nodes t ! i) < neighbor_radius P
                 \<and> dist_pt new_point (nodes t ! i) > 0)
       [0 ..< length (nodes t)]"

section \<open>\<open>_simplify_path\<close> and \<open>_reconstruct_path\<close>\<close>

text \<open>The \<open>for goal in path[idx:]\<close> loop: \<open>anchor\<close> is \<open>new_path[-1]\<close>, which the loop
  does not change before it leaves. The result is the point the loop appends to
  \<open>new_path\<close> (\<open>None\<close> when the loop ends without \<open>break\<close>) and the value of \<open>idx\<close>.\<close>

fun shortcut ::
  "planner \<Rightarrow> point \<Rightarrow> point \<Rightarrow> point list \<Rightarrow> point \<Rightarrow> nat \<Rightarrow> (point option \<times> nat) result" where
  "shortcut P anchor last_pt [] start_pt idx = return (None, idx)"
| "shortcut P anchor last_pt (g # goals) start_pt idx =
     bind_r (is_collision P anchor (Some g))
       (\<lambda>blocked.
          if \<not> blocked
          then (if g = last_pt then return (Some g, idx + 1)
                else shortcut P anchor last_pt goals g (idx + 1))
          else return (Some start_pt, idx))"

text \<open>The \<open>while\<close> loop. \<open>new_path\<close> is never empty.\<close>

partial_function (option) simplify_loop ::
  "planner \<Rightarrow> point list \<Rightarrow> point list \<Rightarrow> nat \<Rightarrow> point list result" where
  "simplify_loop P path new_path idx =
     (if last new_path \<noteq> last path
      then bind_r (shortcut P (last new_path) (last path) (drop idx path) (last new_path) idx)
             (\<lambda>r. simplify_loop P path
                     (case fst r of None \<Rightarrow> new_path | Some s \<Rightarrow> new_path @ [s]) (snd r))
      else Some (Inr new_path))"

definition simplify_path :: "planner \<Rightarrow> point list \<Rightarrow> point list result" where
  "simplify_path P path =
     (case path of [] \<Rightarrow> raise IndexError | p0 # _ \<Rightarrow> simplify_loop P path [p0] 1)"

text \<open>The \<open>while current_idx is not None\<close> loop.\<close>

partial_function (option) walk_parents ::
  "tree \<Rightarrow> nat option \<Rightarrow> point list \<Rightarrow> point list result" where
  "walk_parents t current_idx path =
     (case current_idx of
        None \<Rightarrow> Some (Inr path)
      | Some i \<Rightarrow>
          (case nth_r (nodes t) i of Inl e \<Rightarrow> Some (Inl e)
           | Inr p \<Rightarrow>
               (case lookup (parent t) i of Inl e \<Rightarrow> Some (Inl e)
                | Inr nxt \<Rightarrow> walk_parents t nxt (path @ [p]))))"

definition reconstruct_path :: "planner \<Rightarrow> tree \<Rightarrow> nat \<Rightarrow> point list result" where
  "reconstruct_path P t goal_idx =
     bind_r (walk_parents t (Some goal_idx) [])
       (\<lambda>path. if simplify P then simplify_path P (rev path) else return (rev path))"

section \<open>\<open>find_path\<close>\<close>

text \<open>Lines 183 to 192: one draw of a random point, its nearest node and the steered
  candidate; the result carries the new position in the random stream.\<close>

definition candidate ::
  "planner \<Rightarrow> tree \<Rightarrow> (nat \<Rightarrow> real) \<Rightarrow> nat \<Rightarrow> (nat \<times> point \<times> point \<times> nat) result" where
  "candidate P t rng k =
     bind_r (if rng k < 1 / 10 then return (goal P, k + 1) else sample_point P rng (k + 1))
       (\<lambda>rp. case rp of (rand_point, k') \<Rightarrow>
          (case nearest_node t rand_point of Inl e \<Rightarrow> Some (Inl e)
           | Inr nearest_idx \<Rightarrow>
               (case nth_r (nodes t) nearest_idx of Inl e \<Rightarrow> Some (Inl e)
                | Inr nearest \<Rightarrow>
                    return (nearest_idx, nearest, steer P nearest rand_point, k'))))"

text \<open>The inner \<open>while True\<close> loop: it is left by the first candidate that passes the
  test of lines 195 to 198.\<close>

partial_function (option) pick_new_point ::
  "planner \<Rightarrow> tree \<Rightarrow> (nat \<Rightarrow> real) \<Rightarrow> nat \<Rightarrow> (nat \<times> point \<times> point \<times> nat) result" where
  "pick_new_point P t rng k =
     bind_r (candidate P t rng k)
       (\<lambda>c. bind_r (is_collision P (fst (snd (snd c))) None)
          (\<lambda>blocked.
             if \<not> blocked then return c
             else (case get_grid_cost P (fst (snd (snd c))) of Inl e \<Rightarrow> Some (Inl e)
                   | Inr gc \<Rightarrow>
                       if gc < traversability_threshold P then return c
                       else pick_new_point P t rng (snd (snd (snd c))))))"

text \<open>Lines 210 to 216: the search for the best parent among the near nodes.\<close>

fun choose_parent ::
  "planner \<Rightarrow> tree \<Rightarrow> point \<Rightarrow> nat list \<Rightarrow> real \<Rightarrow> nat \<Rightarrow> (real \<times> nat) result" where
  "choose_parent P t new_point [] min_cost min_parent = return (min_cost, min_parent)"
| "choose_parent P t new_point (idx # rest) min_cost min_parent =
     (case nth_r (nodes t) idx of Inl e \<Rightarrow> Some (Inl e)
      | Inr node \<Rightarrow>
          bind_r (is_collision P node (Some new_point))
            (\<lambda>blocked.
               if \<not> blocked
               then (case lookup (cost t) idx of Inl e \<Rightarrow> Some (Inl e)
                     | Inr ci \<Rightarrow>
                         bind_r (path_cost P node new_point)
                           (\<lambda>pc. if ci + pc < min_cost
                                  then choose_parent P t new_point rest (ci + pc) idx
                                  else choose_parent P t new_point rest min_cost min_parent))
               else choose_parent P t new_point rest min_cost min_parent))"

text \<open>Lines 222 to 231: the rewiring loop over the near nodes.\<close>

fun rewire :: "planner \<Rightarrow> nat \<Rightarrow> point \<Rightarrow> nat \<Rightarrow> nat list \<Rightarrow> tree \<Rightarrow> tree result" where
  "rewire P new_idx new_point min_parent [] t = return t"
| "rewire P new_idx new_point min_parent (idx # rest) t =
     (if idx = min_parent then rewire P new_idx new_point min_parent rest t
      else (case nth_r (nodes t) idx of Inl e \<Rightarrow> Some (Inl e)
            | Inr node \<Rightarrow>
                (case lookup (cost t) new_idx of Inl e \<Rightarrow> Some (Inl e)
                 | Inr cn \<Rightarrow>
                     bind_r (path_cost P new_point node)
                       (\<lambda>pc. case lookup (cost t) idx of Inl e \<Rightarrow> Some (Inl e)
                          | Inr ci \<Rightarrow>
                              if cn + pc < ci
                              then bind_r (is_collision P new_point (Some node))
                                     (\<lambda>blocked.
                                        if \<not> blocked
                                        then rewire P new_idx new_point min_parent rest
                                               (t\<lparr>parent := (parent t)(idx \<mapsto> Some new_idx),
                                                  cost := (cost t)(idx \<mapsto> cn + pc)\<rparr>)
                                        else rewire P new_idx new_point min_parent rest t)
                              else rewire P new_idx new_point min_parent rest t))))"

text \<open>Lines 202 to 231: the new node is appended, given its parent and cost, and the
  near nodes are rewired. The result is the new tree and the index of the new node.\<close>

definition extend :: "planner \<Rightarrow> tree \<Rightarrow> nat \<Rightarrow> point \<Rightarrow> point \<Rightarrow> (tree \<times> nat) result" where
  "extend P t nearest_idx nearest new_point =
     (let new_idx = length (nodes t);
          t1 = t\<lparr>nodes := nodes t @ [new_point]\<rparr>
      in case lookup (cost t1) nearest_idx of Inl e \<Rightarrow> Some (Inl e)
         | Inr c0 \<Rightarrow>
             bind_r (path_cost P nearest new_point)
               (\<lambda>pc0.
                  let near_nodes = get_near_nodes P t1 new_point
                  in bind_r (choose_parent P t1 new_point near_nodes (c0 + pc0) nearest_idx)
                       (\<lambda>m. let t2 = t1\<lparr>parent := (parent t1)(new_idx \<mapsto> Some (snd m)),
                                        cost := (cost t1)(new_idx \<mapsto> fst m)\<rparr>
                             in bind_r (rewire P new_idx new_point (snd m) near_nodes t2)
                                  (\<lambda>t3. return (t3, new_idx)))))"

text \<open>Lines 234 to 242: the connection to the goal. The result is the tree and the value
  \<open>find_path\<close> returns there, or \<open>None\<close> when the iteration goes on.\<close>

definition connect_goal ::
  "planner \<Rightarrow> tree \<Rightarrow> nat \<Rightarrow> point \<Rightarrow> (tree \<times> point list option) result" where
  "connect_goal P t new_idx new_point =
     (if dist_pt (goal P) new_point < goal_tolerance P
      then bind_r (is_collision P new_point (Some (goal P)))
             (\<lambda>blocked.
                if \<not> blocked
                then (let goal_idx = length (nodes t);
                          t1 = t\<lparr>nodes := nodes t @ [goal P]\<rparr>
                      in case lookup (cost t1) new_idx of Inl e \<Rightarrow> Some (Inl e)
                         | Inr cn \<Rightarrow>
                             bind_r (path_cost P new_point (goal P))
                               (\<lambda>pc. let t2 = t1\<lparr>parent := (parent t1)(goal_idx \<mapsto> Some new_idx),
                                                 cost := (cost t1)(goal_idx \<mapsto> cn + pc)\<rparr>
                                      in bind_r (reconstruct_path P t2 goal_idx)
                                           (\<lambda>path. return (t2, Some path))))
                else return (t, None))
      else return (t, None))"

text \<open>The \<open>for _ in range(max_iter)\<close> loop with \<open>n\<close> iterations left. The result is the
  value \<open>find_path\<close> returns (\<open>None\<close> for Python's \<open>None\<close>) and the tree it leaves.\<close>

fun find_loop ::
  "planner \<Rightarrow> (nat \<Rightarrow> real) \<Rightarrow> nat \<Rightarrow> tree \<Rightarrow> nat \<Rightarrow> (point list option \<times> tree) result" where
  "find_loop P rng 0 t k = return (None, t)"
| "find_loop P rng (Suc n) t k =
     bind_r (pick_new_point P t rng k)
       (\<lambda>c. case c of (nearest_idx, nearest, new_point, k') \<Rightarrow>
          bind_r (is_collision P nearest (Some new_point))
            (\<lambda>blocked.
               if \<not> blocked
               then bind_r (extend P t nearest_idx nearest new_point)
                      (\<lambda>e. bind_r (connect_goal P (fst e) (snd e) new_point)
                         (\<lambda>r. case snd r of
                                 Some path \<Rightarrow> return (Some path, fst r)
                               | None \<Rightarrow> find_loop P rng n (fst r) k'))
               else find_loop P rng n t k'))"

definition find_path ::
  "planner \<Rightarrow> tree \<Rightarrow> (nat \<Rightarrow> real) \<Rightarrow> (point list option \<times> tree) result" where
  "find_path P t rng = find_loop P rng (nat (max_iter P)) t 0"

section \<open>Specification-level definitions\<close>

text \<open>\<open>clamp(v, lo, hi)\<close> and the cost query as the specification words it:
  the cell at row \<open>clamp(floor(y / cell_size), 0, rows - 1)\<close> and column
  \<open>clamp(floor(x / cell_size), 0, cols - 1)\<close>.\<close>

definition clamp :: "int \<Rightarrow> int \<Rightarrow> int \<Rightarrow> int" where
  "clamp v lo hi = (if v < lo then lo else if hi < v then hi else v)"

definition spec_cost_at :: "planner \<Rightarrow> point \<Rightarrow> real" where
  "spec_cost_at P p =
     item (grid P)
       (nat (clamp \<lfloor>snd p / grid_scale P\<rfloor> 0 (int (shape0 (grid P)) - 1)))
       (nat (clamp \<lfloor>fst p / grid_scale P\<rfloor> 0 (int (shape1 (grid P)) - 1)))"

text \<open>A cell \<open>(x, y)\<close> within grid bounds, and the average grid cost over the cells of
  a list that are within bounds, 0 when there is none.\<close>

definition in_bounds :: "planner \<Rightarrow> cell \<Rightarrow> bool" where
  "in_bounds P c \<longleftrightarrow>
     0 \<le> fst c \<and> fst c < int (shape1 (grid P)) \<and> 0 \<le> snd c \<and> snd c < int (shape0 (grid P))"

definition spec_average_cost :: "planner \<Rightarrow> cell list \<Rightarrow> real" where
  "spec_average_cost P cells =
     (let valid = filter (in_bounds P) cells
      in if valid = [] then 0
         else sum_list (map (\<lambda>c. item (grid P) (nat (snd c)) (nat (fst c))) valid)
              / real (length valid))"

section \<open>Example configurations\<close>

definition uniform_grid :: "nat \<Rightarrow> nat \<Rightarrow> real \<Rightarrow> ndarray" where
  "uniform_grid r c v = \<lparr>shape0 = r, shape1 = c, item = (\<lambda>i j. v)\<rparr>"

text \<open>A 3 by 3 grid whose cells all cost 1, above the threshold 0.75; no obstacle.\<close>

definition wall_planner :: planner where
  "wall_planner = \<lparr>start = (1 / 2, 1 / 2), goal = (5 / 2, 3 / 2), obstacles = [],
     grid = uniform_grid 3 3 1, max_iter = 10, step_size = 1, neighbor_radius = 2,
     grid_scale = 1, traversability_threshold = 3 / 4, simplify = True\<rparr>"

text \<open>A grid of 2 rows and 3 columns with cells of size 0.5; the cell of row \<open>i\<close> and
  column \<open>j\<close> costs \<open>(3 i + j) / 10\<close>.\<close>

definition ramp_planner :: planner where
  "ramp_planner = \<lparr>start = (1 / 2, 1 / 2), goal = (5 / 2, 3 / 2), obstacles = [],
     grid = \<lparr>shape0 = 2, shape1 = 3, item = (\<lambda>i j. real (3 * i + j) / 10)\<rparr>,
     max_iter = 10, step_size = 1, neighbor_radius = 2,
     grid_scale = 1 / 2, traversability_threshold = 3 / 4, simplify = True\<rparr>"

section \<open>Paths whose segments pass the collision check\<close>

text \<open>Every consecutive pair of points of the path passes \<open>blocked(a, b) == false\<close>.\<close>

fun segments_clear :: "planner \<Rightarrow> point list \<Rightarrow> bool" where
  "segments_clear P (a # b # rest) \<longleftrightarrow>
     is_collision P a (Some b) = Some (Inr False) \<and> segments_clear P (b # rest)"
| "segments_clear P [a] \<longleftrightarrow> True"
| "segments_clear P [] \<longleftrightarrow> True"

text \<open>No collision check between two points of the path raises an exception.\<close>

definition checks_return :: "planner \<Rightarrow> point list \<Rightarrow> bool" where
  "checks_return P path \<longleftrightarrow>
     list_all (\<lambda>a. list_all (\<lambda>b. case is_collision P a (Some b) of
                                     Some (Inr v) \<Rightarrow> True | _ \<Rightarrow> False) path) path"

text \<open>A thin post at the point \<open>c\<close>: it contains and intersects the point \<open>c\<close> and
  intersects the segments through \<open>c\<close>.\<close>

definition on_segment :: "point \<Rightarrow> point \<Rightarrow> point \<Rightarrow> bool" where
  "on_segment a b c \<longleftrightarrow>
     (fst b - fst a) * (snd c - snd a) = (snd b - snd a) * (fst c - fst a)
     \<and> min (fst a) (fst b) \<le> fst c \<and> fst c \<le> max (fst a) (fst b)
     \<and> min (snd a) (snd b) \<le> snd c \<and> snd c \<le> max (snd a) (snd b)"

definition post_obstacle :: "point \<Rightarrow> obstacle" where
  "post_obstacle c =
     \<lparr>contains = (\<lambda>g. g = Point c),
      intersects = (\<lambda>g. case g of Point p \<Rightarrow> p = c | LineString a b \<Rightarrow> on_segment a b c)\<rparr>"

text \<open>A 3 by 3 grid of cost 0 with a post at (1.5, 1).\<close>

definition open_planner :: planner where
  "open_planner = \<lparr>start = (1 / 2, 1 / 2), goal = (5 / 2, 3 / 2),
     obstacles = [post_obstacle (3 / 2, 1)],
     grid = uniform_grid 3 3 0, max_iter = 10, step_size = 1, neighbor_radius = 2,
     grid_scale = 1, traversability_threshold = 3 / 4, simplify = True\<rparr>"

definition corner_path :: "point list" where
  "corner_path = [(1 / 2, 1 / 2), (3 / 2, 1 / 2), (5 / 2, 1 / 2), (5 / 2, 3 / 2)]"

section \<open>The tree invariant\<close>

text \<open>Following the parent pointers from node \<open>i\<close> reaches the root, the node 0 whose
  parent is \<open>None\<close>, in finitely many steps.\<close>

inductive reaches_root :: "(nat \<rightharpoonup> nat option) \<Rightarrow> nat \<Rightarrow> bool" for par where
  root: "par 0 = Some None \<Longrightarrow> reaches_root par 0"
| step: "par i = Some (Some p) \<Longrightarrow> reaches_root par p \<Longrightarrow> reaches_root par i"

text \<open>Node \<open>a\<close> is node \<open>b\<close> or one of its ancestors.\<close>

inductive ancestor :: "(nat \<rightharpoonup> nat option) \<Rightarrow> nat \<Rightarrow> nat \<Rightarrow> bool" for par a where
  self: "ancestor par a a"
| up: "par b = Some (Some p) \<Longrightarrow> ancestor par a p \<Longrightarrow> ancestor par a b"

text \<open>The data model of the grid: no cell has a negative cost.\<close>

definition grid_nonneg :: "planner \<Rightarrow> bool" where
  "grid_nonneg P \<longleftrightarrow>
     list_all (\<lambda>i. list_all (\<lambda>j. 0 \<le> item (grid P) i j) [0 ..< shape1 (grid P)])
       [0 ..< shape0 (grid P)]"

text \<open>The invariant of the tree: the two dictionaries have an entry for every node; the
  parent of a node is a node whose cost is not larger and whose segment to the node
  passed the collision check; every node reaches the root.\<close>

definition tree_inv :: "planner \<Rightarrow> tree \<Rightarrow> bool" where
  "tree_inv P t \<longleftrightarrow>
     dom (parent t) = {..< length (nodes t)}
     \<and> dom (cost t) = {..< length (nodes t)}
     \<and> (\<forall>i p. parent t i = Some (Some p) \<longrightarrow>
           p < length (nodes t)
           \<and> (\<exists>cp ci. cost t p = Some cp \<and> cost t i = Some ci \<and> cp \<le> ci)
           \<and> is_collision P (nodes t ! p) (Some (nodes t ! i)) = Some (Inr False))
     \<and> (\<forall>i < length (nodes t). reaches_root (parent t) i)"

text \<open>A random stream that always draws 0: every sample is the goal.\<close>

definition always_goal :: "nat \<Rightarrow> real" where
  "always_goal n = 0"

text \<open>A free grid of 3 rows and 4 columns; the goal is three steps to the right of the
  start.\<close>

definition line_planner :: planner where
  "line_planner = \<lparr>start = (1 / 2, 1 / 2), goal = (7 / 2, 1 / 2), obstacles = [],
     grid = uniform_grid 3 4 0, max_iter = 2, step_size = 1, neighbor_radius = 3 / 2,
     grid_scale = 1, traversability_threshold = 3 / 4, simplify = True\<rparr>"

definition line_tree1 :: tree where
  "line_tree1 = \<lparr>nodes = [(1 / 2, 1 / 2), (3 / 2, 1 / 2)],
     parent = [0 \<mapsto> None, 1 \<mapsto> Some 0], cost = [0 \<mapsto> 0, 1 \<mapsto> 1]\<rparr>"

definition line_tree2 :: tree where
  "line_tree2 = \<lparr>nodes = [(1 / 2, 1 / 2), (3 / 2, 1 / 2), (5 / 2, 1 / 2)],
     parent = [0 \<mapsto> None, 1 \<mapsto> Some 0, 2 \<mapsto> Some 1],
     cost = [0 \<mapsto> 0, 1 \<mapsto> 1, 2 \<mapsto> 2]\<rparr>"

text \<open>The \<open>n\<close> iterations of \<open>find_path\<close> that start from tree \<open>t\<close> and position \<open>k\<close> of
  the random stream all end without a connection to the goal, and leave tree \<open>t'\<close>:
  in each of them either the segment to the new point is blocked, or the new node is
  added and the goal check fails.\<close>

inductive exhausts :: "planner \<Rightarrow> (nat \<Rightarrow> real) \<Rightarrow> nat \<Rightarrow> tree \<Rightarrow> nat \<Rightarrow> tree \<Rightarrow> bool"
  for P rng where
  budget_spent: "exhausts P rng 0 t k t"
| segment_blocked:
    "pick_new_point P t rng k = Some (Inr (ni, nr, np, k'))
     \<Longrightarrow> is_collision P nr (Some np) = Some (Inr True)
     \<Longrightarrow> exhausts P rng n t k' t'
     \<Longrightarrow> exhausts P rng (Suc n) t k t'"
| not_connected:
    "pick_new_point P t rng k = Some (Inr (ni, nr, np, k'))
     \<Longrightarrow> is_collision P nr (Some np) = Some (Inr False)
     \<Longrightarrow> extend P t ni nr np = Some (Inr (t1, new_idx))
     \<Longrightarrow> connect_goal P t1 new_idx np = Some (Inr (t2, None))
     \<Longrightarrow> exhausts P rng n t2 k' t'
     \<Longrightarrow> exhausts P rng (Suc n) t k t'"

text \<open>The tree after the goal is appended as a node with parent \<open>new_idx\<close> and cost
  \<open>c\<close>.\<close>

definition with_goal :: "planner \<Rightarrow> tree \<Rightarrow> nat \<Rightarrow> real \<Rightarrow> tree" where
  "with_goal P t new_idx c =
     t\<lparr>nodes := nodes t @ [goal P],
       parent := (parent t)(length (nodes t) \<mapsto> Some new_idx),
       cost := (cost t)(length (nodes t) \<mapsto> c)\<rparr>"

definition line_tree3 :: tree where
  "line_tree3 = \<lparr>nodes = [(1 / 2, 1 / 2), (3 / 2, 1 / 2), (5 / 2, 1 / 2), (7 / 2, 1 / 2)],
     parent = [0 \<mapsto> None, 1 \<mapsto> Some 0, 2 \<mapsto> Some 1, 3 \<mapsto> Some 2],
     cost = [0 \<mapsto> 0, 1 \<mapsto> 1, 2 \<mapsto> 2, 3 \<mapsto> 3]\<rparr>"

text \<open>The same grid with a post on the first candidate point, and with cells of cost 1
  as well.\<close>

definition gate_planner :: planner where
  "gate_planner = line_planner\<lparr>obstacles := [post_obstacle (3 / 2, 1 / 2)]\<rparr>"

definition closed_planner :: planner where
  "closed_planner = gate_planner\<lparr>grid := uniform_grid 3 4 1\<rparr>"

text \<open>A free grid of 2 rows and 5 columns. The start and the goal lie in the bottom row;
  the random stream draws the point (2.5, 1.5) above the start.\<close>

definition ridge_planner :: planner where
  "ridge_planner = \<lparr>start = (5 / 2, 1 / 2), goal = (9 / 2, 1 / 2), obstacles = [],
     grid = uniform_grid 2 5 0, max_iter = 1, step_size = 6, neighbor_radius = 1 / 2,
     grid_scale = 1, traversability_threshold = 3 / 4, simplify = True\<rparr>"

definition ridge_draws :: "nat \<Rightarrow> real" where
  "ridge_draws n = (if n = 2 then 3 / 4 else 1 / 2)"

definition ridge_tree1 :: tree where
  "ridge_tree1 = \<lparr>nodes = [(5 / 2, 1 / 2), (5 / 2, 3 / 2)],
     parent = [0 \<mapsto> None, 1 \<mapsto> Some 0], cost = [0 \<mapsto> 0, 1 \<mapsto> 1]\<rparr>"

section \<open>Properties of \<open>_bresenham\<close>\<close>

text \<open>Both loops end, because \<open>x\<close> (or \<open>y\<close>) moves one step towards its target in
  each iteration; the cells appended all differ from the target in that coordinate.\<close>

lemma bres_x_run:
  assumes "x1 < x \<longrightarrow> sx = - 1" and "x < x1 \<longrightarrow> sx = 1"
  shows "\<exists>cs. bres_x x1 dx dy sx sy x y err line = Some (line @ cs)
              \<and> (\<forall>c \<in> set cs. fst c \<noteq> x1)
              \<and> (x \<noteq> x1 \<longrightarrow> cs \<noteq> [] \<and> hd cs = (x, y))
              \<and> (x = x1 \<longrightarrow> cs = [])"
  using assms
proof (induction "nat \<bar>x1 - x\<bar>" arbitrary: x y err line)
  case 0
  then have "x = x1" by simp
  then show ?case by (simp add: bres_x.simps)
next
  case (Suc n)
  then have ne: "x \<noteq> x1" by auto
  define y' where "y' = (if err - real_of_int dy < 0 then y + sy else y)"
  define err' where "err' = (if err - real_of_int dy < 0 then err - real_of_int dy + real_of_int dx
                             else err - real_of_int dy)"
  have step: "bres_x x1 dx dy sx sy x y err line = bres_x x1 dx dy sx sy (x + sx) y' err' (line @ [(x, y)])"
    using ne by (subst bres_x.simps) (simp add: y'_def err'_def)
  have n: "n = nat \<bar>x1 - (x + sx)\<bar>" using Suc.hyps(2) Suc.prems ne by auto
  have d1: "x1 < x + sx \<longrightarrow> sx = - 1" using Suc.prems ne by auto
  have d2: "x + sx < x1 \<longrightarrow> sx = 1" using Suc.prems ne by auto
  from Suc.hyps(1)[OF n d1 d2, of y' err' "line @ [(x, y)]"]
  obtain cs where cs: "bres_x x1 dx dy sx sy (x + sx) y' err' ((line @ [(x, y)])) = Some ((line @ [(x, y)]) @ cs)"
    "\<forall>c \<in> set cs. fst c \<noteq> x1" by blast
  show ?case
    using step cs ne by (intro exI[of _ "(x, y) # cs"]) simp
qed

lemma bres_y_run:
  assumes "y1 < y \<longrightarrow> sy = - 1" and "y < y1 \<longrightarrow> sy = 1"
  shows "\<exists>cs. bres_y y1 dx dy sx sy x y err line = Some (line @ cs)
              \<and> (\<forall>c \<in> set cs. snd c \<noteq> y1)
              \<and> (y \<noteq> y1 \<longrightarrow> cs \<noteq> [] \<and> hd cs = (x, y))
              \<and> (y = y1 \<longrightarrow> cs = [])"
  using assms
proof (induction "nat \<bar>y1 - y\<bar>" arbitrary: x y err line)
  case 0
  then have "y = y1" by simp
  then show ?case by (simp add: bres_y.simps)
next
  case (Suc n)
  then have ne: "y \<noteq> y1" by auto
  define x' where "x' = (if err - real_of_int dx < 0 then x + sx else x)"
  define err' where "err' = (if err - real_of_int dx < 0 then err - real_of_int dx + real_of_int dy
                             else err - real_of_int dx)"
  have step: "bres_y y1 dx dy sx sy x y err line = bres_y y1 dx dy sx sy x' (y + sy) err' (line @ [(x, y)])"
    using ne by (subst bres_y.simps) (simp add: x'_def err'_def)
  have n: "n = nat \<bar>y1 - (y + sy)\<bar>" using Suc.hyps(2) Suc.prems ne by auto
  have d1: "y1 < y + sy \<longrightarrow> sy = - 1" using Suc.prems ne by auto
  have d2: "y + sy < y1 \<longrightarrow> sy = 1" using Suc.prems ne by auto
  from Suc.hyps(1)[OF n d1 d2, of x' err' "line @ [(x, y)]"]
  obtain cs where cs: "bres_y y1 dx dy sx sy x' (y + sy) err' ((line @ [(x, y)])) = Some ((line @ [(x, y)]) @ cs)"
    "\<forall>c \<in> set cs. snd c \<noteq> y1" by blast
  show ?case
    using step cs ne by (intro exI[of _ "(x, y) # cs"]) simp
qed

lemma bresenham_cells:
  "\<exists>cs. bresenham s g = Some cs \<and> g \<notin> set cs \<and> (s \<noteq> g \<longrightarrow> cs \<noteq> [] \<and> hd cs = s) \<and> (s = g \<longrightarrow> cs = [])"
proof -
  obtain x0 y0 where s: "s = (x0, y0)" by (cases s)
  obtain x1 y1 where g: "g = (x1, y1)" by (cases g)
  define sx :: int where "sx = (if x0 > x1 then - 1 else 1)"
  define sy :: int where "sy = (if y0 > y1 then - 1 else 1)"
  show ?thesis
  proof (cases "\<bar>x1 - x0\<bar> > \<bar>y1 - y0\<bar>")
    case True
    then have ne: "x0 \<noteq> x1" by auto
    have eq: "bresenham s g = bres_x x1 \<bar>x1 - x0\<bar> \<bar>y1 - y0\<bar> sx sy x0 y0 (real_of_int \<bar>x1 - x0\<bar> / 2) []"
      using True by (simp add: bresenham_def s g sx_def sy_def Let_def)
    from bres_x_run[of x1 x0 sx "\<bar>x1 - x0\<bar>" "\<bar>y1 - y0\<bar>" sy y0 "real_of_int \<bar>x1 - x0\<bar> / 2" "[]"]
    obtain cs where "bres_x x1 \<bar>x1 - x0\<bar> \<bar>y1 - y0\<bar> sx sy x0 y0 (real_of_int \<bar>x1 - x0\<bar> / 2) [] = Some cs"
      "\<forall>c \<in> set cs. fst c \<noteq> x1" "cs \<noteq> []" "hd cs = (x0, y0)"
      using ne by (auto simp: sx_def)
    then show ?thesis using eq ne by (auto simp: s g)
  next
    case False
    have eq: "bresenham s g = bres_y y1 \<bar>x1 - x0\<bar> \<bar>y1 - y0\<bar> sx sy x0 y0 (real_of_int \<bar>y1 - y0\<bar> / 2) []"
      using False by (simp add: bresenham_def s g sx_def sy_def Let_def)
    from bres_y_run[of y1 y0 sy "\<bar>x1 - x0\<bar>" "\<bar>y1 - y0\<bar>" sx x0 "real_of_int \<bar>y1 - y0\<bar> / 2" "[]"]
    obtain cs where cs: "bres_y y1 \<bar>x1 - x0\<bar> \<bar>y1 - y0\<bar> sx sy x0 y0 (real_of_int \<bar>y1 - y0\<bar> / 2) [] = Some cs"
      "\<forall>c \<in> set cs. snd c \<noteq> y1" "y0 \<noteq> y1 \<longrightarrow> cs \<noteq> [] \<and> hd cs = (x0, y0)" "y0 = y1 \<longrightarrow> cs = []"
      by (auto simp: sy_def)
    have "s \<noteq> g \<longrightarrow> y0 \<noteq> y1" using False by (auto simp: s g)
    then show ?thesis using eq cs by (auto simp: s g)
  qed
qed

text \<open>The cells of the line from \<open>s\<close> to \<open>g\<close>, once it is known that the loop ends.\<close>

lemma bres_x_unfold:
  "x \<noteq> x1 \<Longrightarrow> bres_x x1 dx dy sx sy x y err line =
     (if err - real_of_int dy < 0
      then bres_x x1 dx dy sx sy (x + sx) (y + sy) (err - real_of_int dy + real_of_int dx)
             (line @ [(x, y)])
      else bres_x x1 dx dy sx sy (x + sx) y (err - real_of_int dy) (line @ [(x, y)]))"
  "bres_x x1 dx dy sx sy x1 y err line = Some line"
  by (subst bres_x.simps, simp)+

lemma bres_y_unfold:
  "y \<noteq> y1 \<Longrightarrow> bres_y y1 dx dy sx sy x y err line =
     (if err - real_of_int dx < 0
      then bres_y y1 dx dy sx sy (x + sx) (y + sy) (err - real_of_int dx + real_of_int dy)
             (line @ [(x, y)])
      else bres_y y1 dx dy sx sy x (y + sy) (err - real_of_int dx) (line @ [(x, y)]))"
  "bres_y y1 dx dy sx sy x y1 err line = Some line"
  by (subst bres_y.simps, simp)+

lemmas eval_cells = to_cell_def grid_index_def py_int_def bresenham_def bres_x_unfold
  bres_y_unfold getitem_def np_index_def

section \<open>The grid cost query (C8)\<close>

lemma clamp_py_int:
  assumes "0 < n"
  shows "max 0 (min (py_int r) (int n - 1)) = clamp \<lfloor>r\<rfloor> 0 (int n - 1)"
proof (cases "0 \<le> r")
  case True
  then show ?thesis using assms by (auto simp: py_int_def clamp_def)
next
  case False
  then have a: "\<lceil>r\<rceil> \<le> 0" and b: "\<lfloor>r\<rfloor> < 0"
    by (auto simp: ceiling_le_iff floor_less_iff)
  have "py_int r = \<lceil>r\<rceil>" using False by (simp add: py_int_def)
  moreover have "max 0 (min \<lceil>r\<rceil> (int n - 1)) = 0" using a by linarith
  moreover have "clamp \<lfloor>r\<rfloor> 0 (int n - 1) = 0" unfolding clamp_def using b by presburger
  ultimately show ?thesis by presburger
qed

lemma clamp_range: "0 < n \<Longrightarrow> 0 \<le> clamp v 0 (int n - 1) \<and> clamp v 0 (int n - 1) < int n"
  by (auto simp: clamp_def)

lemma getitem_in_range:
  "0 \<le> i \<Longrightarrow> i < int (shape0 a) \<Longrightarrow> 0 \<le> j \<Longrightarrow> j < int (shape1 a)
   \<Longrightarrow> getitem a i j = Inr (item a (nat i) (nat j))"
  by (simp add: getitem_def np_index_def)

text \<open>
  C8. On a grid with at least one row and one column and a cell size that is not zero,
  the grid cost query of any world point, inside the grid extent or not, returns
  without an exception the value of the cell at row
  \<open>clamp(floor(y / cell_size), 0, rows - 1)\<close> and column
  \<open>clamp(floor(x / cell_size), 0, cols - 1)\<close>. The code truncates with \<open>int\<close> where
  the specification takes the floor; after clamping the two agree.
\<close>

theorem get_grid_cost_clamps:
  assumes "grid_scale P \<noteq> 0" and "0 < shape0 (grid P)" and "0 < shape1 (grid P)"
  shows "get_grid_cost P p = Inr (spec_cost_at P p)"
proof -
  let ?i = "clamp \<lfloor>snd p / grid_scale P\<rfloor> 0 (int (shape0 (grid P)) - 1)"
  let ?j = "clamp \<lfloor>fst p / grid_scale P\<rfloor> 0 (int (shape1 (grid P)) - 1)"
  have "get_grid_cost P p = getitem (grid P) ?i ?j"
    using assms by (simp add: get_grid_cost_def grid_index_def Let_def clamp_py_int)
  also have "\<dots> = Inr (item (grid P) (nat ?i) (nat ?j))"
    using clamp_range[OF assms(2)] clamp_range[OF assms(3)] by (intro getitem_in_range) auto
  finally show ?thesis by (simp add: spec_cost_at_def)
qed

text \<open>A point right of and below the grid reads the last cell of the first row.\<close>

theorem get_grid_cost_clamps_witness:
  "grid_scale ramp_planner \<noteq> 0 \<and> 0 < shape0 (grid ramp_planner)
   \<and> 0 < shape1 (grid ramp_planner)
   \<and> get_grid_cost ramp_planner (7 / 2, - 1) = Inr (2 / 10)"
  using get_grid_cost_clamps[of ramp_planner "(7 / 2, - 1)"]
  by (simp add: ramp_planner_def spec_cost_at_def clamp_def)

section \<open>The edge cost (C7, C9)\<close>

lemma sum_cells_eq:
  "sum_cells P cells total_cost valid_cells =
     Inr (total_cost + sum_list (map (\<lambda>c. item (grid P) (nat (snd c)) (nat (fst c)))
                                  (filter (in_bounds P) cells)),
          valid_cells + length (filter (in_bounds P) cells))"
proof (induction cells arbitrary: total_cost valid_cells)
  case Nil
  then show ?case by simp
next
  case (Cons c cells)
  show ?case
  proof (cases "in_bounds P c")
    case True
    then have "getitem (grid P) (snd c) (fst c) = Inr (item (grid P) (nat (snd c)) (nat (fst c)))"
      by (intro getitem_in_range) (auto simp: in_bounds_def)
    then show ?thesis using True Cons.IH by (auto simp: in_bounds_def)
  next
    case False
    then show ?thesis using Cons.IH by (auto simp: in_bounds_def)
  qed
qed

lemma to_cell_ok:
  "grid_scale P \<noteq> 0 \<Longrightarrow>
   to_cell P p = Inr (py_int (fst p / grid_scale P), py_int (snd p / grid_scale P))"
  by (simp add: to_cell_def grid_index_def)

lemma path_cost_eq:
  assumes "to_cell P a = Inr ca" and "to_cell P b = Inr cb" and "bresenham ca cb = Some cells"
  shows "path_cost P a b = Some (Inr (dist_pt a b * (1 + spec_average_cost P cells)))"
  by (simp add: path_cost_def assms sum_cells_eq spec_average_cost_def Let_def)

text \<open>
  C7. With a cell size that is not zero, the edge cost of any two points \<open>a\<close>, \<open>b\<close> is
  returned and equals their Euclidean distance times one plus the average grid cost,
  the average being taken over those cells of the Bresenham line between the cells of
  \<open>a\<close> and \<open>b\<close> that are within grid bounds, and being 0 when none is.
\<close>

theorem path_cost_average:
  assumes "grid_scale P \<noteq> 0"
  shows "\<exists>ca cb cells. to_cell P a = Inr ca \<and> to_cell P b = Inr cb
           \<and> bresenham ca cb = Some cells
           \<and> path_cost P a b = Some (Inr (dist_pt a b * (1 + spec_average_cost P cells)))"
proof -
  obtain ca cb where c: "to_cell P a = Inr ca" "to_cell P b = Inr cb"
    using to_cell_ok[OF assms] by blast
  obtain cells where b: "bresenham ca cb = Some cells"
    using bresenham_cells[of ca cb] by blast
  from path_cost_eq[OF c b] c b show ?thesis by blast
qed

text \<open>The segment from (0.25, 0.25) to (1.25, 0.25) has length 1 and crosses the cells
  (0, 0) and (1, 0), of costs 0 and 0.1: its cost is 1.05.\<close>

theorem path_cost_average_witness:
  "grid_scale ramp_planner \<noteq> 0
   \<and> path_cost ramp_planner (1 / 4, 1 / 4) (5 / 4, 1 / 4) = Some (Inr (21 / 20))"
proof -
  have h: "grid_scale ramp_planner \<noteq> 0" by (simp add: ramp_planner_def)
  from path_cost_average[OF h, of "(1 / 4, 1 / 4)" "(5 / 4, 1 / 4)"]
  obtain ca cb cells where
    c: "to_cell ramp_planner (1 / 4, 1 / 4) = Inr ca" "to_cell ramp_planner (5 / 4, 1 / 4) = Inr cb"
    and b: "bresenham ca cb = Some cells"
    and p: "path_cost ramp_planner (1 / 4, 1 / 4) (5 / 4, 1 / 4)
            = Some (Inr (dist_pt (1 / 4, 1 / 4) (5 / 4, 1 / 4) * (1 + spec_average_cost ramp_planner cells)))"
    by blast
  have "ca = (0, 0)" "cb = (2, 0)" using c by (simp_all add: ramp_planner_def eval_cells)
  then have "cells = [(0, 0), (1, 0)]" using b by (simp add: eval_cells)
  then have "spec_average_cost ramp_planner cells = 1 / 20"
    by (simp add: spec_average_cost_def in_bounds_def ramp_planner_def)
  moreover have "dist_pt (1 / 4, 1 / 4) (5 / 4, 1 / 4) = 1" by (simp add: dist_pt_def)
  ultimately show ?thesis using p h by simp
qed

text \<open>
  C9. For two different cells the Bresenham line is returned, starts with the start cell
  and does not contain the goal cell; for two equal cells it is the empty list.
  So the edge cost of a zero-length segment (with a cell size that is not zero) is
  its Euclidean distance, which is 0: no cell is traversed and the average cost is 0.
\<close>

theorem bresenham_excludes_goal:
  "(s \<noteq> g \<longrightarrow> (\<exists>cells. bresenham s g = Some (s # cells) \<and> g \<notin> set (s # cells)))
   \<and> bresenham s s = Some []
   \<and> (grid_scale P \<noteq> 0 \<longrightarrow> path_cost P a a = Some (Inr (dist_pt a a)) \<and> dist_pt a a = 0)"
proof (intro conjI impI)
  assume "s \<noteq> g"
  then obtain cs where "bresenham s g = Some cs" "g \<notin> set cs" "cs \<noteq> []" "hd cs = s"
    using bresenham_cells[of s g] by blast
  then show "\<exists>cells. bresenham s g = Some (s # cells) \<and> g \<notin> set (s # cells)"
    by (cases cs) auto
next
  show e: "bresenham s s = Some []" for s using bresenham_cells[of s s] by auto
  assume "grid_scale P \<noteq> 0"
  then show "path_cost P a a = Some (Inr (dist_pt a a))"
    by (simp add: path_cost_def to_cell_ok e)
next
  show "dist_pt a a = 0" by (simp add: dist_pt_def)
qed

theorem bresenham_excludes_goal_witness:
  "(0, 0) \<noteq> ((3, 1) :: cell)
   \<and> (\<exists>cells. bresenham (0, 0) (3, 1) = Some ((0, 0) # cells) \<and> (3, 1) \<notin> set ((0, 0) # cells))
   \<and> bresenham (0, 0) (3, 1) = Some [(0, 0), (1, 0), (2, 1)]
   \<and> grid_scale ramp_planner \<noteq> 0
   \<and> path_cost ramp_planner (1 / 4, 1 / 4) (1 / 4, 1 / 4) = Some (Inr 0)"
  using bresenham_excludes_goal[of "(0, 0)" "(3, 1)" ramp_planner "(1 / 4, 1 / 4)"]
  by (simp add: ramp_planner_def eval_cells)

section \<open>The grid test of the collision check (C1)\<close>

text \<open>
  C1. The specification says that a rasterized cell strictly inside the grid with a cost at or
  above the threshold blocks the segment, and that a cell on the boundary or outside
  never does. The loop of \<open>_is_collision\<close> does the opposite. On the 3 by 3 grid whose
  cells all cost 1 (threshold 0.75, no obstacle), the segment from (1.5, 1.5) to
  (2.5, 1.5) rasterizes to the interior cell (1, 1), where the loop is left by \<open>break\<close>:
  the segment is reported free. The segment from (0.5, 0.5) to (1.5, 0.5) rasterizes to
  the boundary cell (0, 0), for which \<open>grid[-1, -1]\<close> is read: it is reported blocked.
\<close>

theorem is_collision_breaks_on_interior_cell:
  "to_cell wall_planner (3 / 2, 3 / 2) = Inr (1, 1)
   \<and> to_cell wall_planner (5 / 2, 3 / 2) = Inr (2, 1)
   \<and> bresenham (1, 1) (2, 1) = Some [(1, 1)]
   \<and> 1 < int (shape1 (grid wall_planner)) \<and> 1 < int (shape0 (grid wall_planner))
   \<and> traversability_threshold wall_planner \<le> item (grid wall_planner) 1 1
   \<and> is_collision wall_planner (3 / 2, 3 / 2) (Some (5 / 2, 3 / 2)) = Some (Inr False)
   \<and> to_cell wall_planner (1 / 2, 1 / 2) = Inr (0, 0)
   \<and> to_cell wall_planner (3 / 2, 1 / 2) = Inr (1, 0)
   \<and> bresenham (0, 0) (1, 0) = Some [(0, 0)]
   \<and> is_collision wall_planner (1 / 2, 1 / 2) (Some (3 / 2, 1 / 2)) = Some (Inr True)"
  by (simp add: is_collision_def wall_planner_def uniform_grid_def hits_obstacle_def eval_cells)

section \<open>Path simplification (C3, C10)\<close>

lemma is_collision_total: "\<exists>r. is_collision P a b = Some r"
proof (cases b)
  case None
  then show ?thesis by (simp add: is_collision_def)
next
  case (Some p2)
  show ?thesis
  proof (cases "to_cell P a")
    case (Inl e)
    then show ?thesis using Some by (simp add: is_collision_def)
  next
    case ca: (Inr ca)
    show ?thesis
    proof (cases "to_cell P p2")
      case (Inl e)
      then show ?thesis using Some ca by (simp add: is_collision_def)
    next
      case (Inr cb)
      obtain cs where "bresenham ca cb = Some cs" using bresenham_cells[of ca cb] by blast
      then show ?thesis using Some ca Inr by (simp add: is_collision_def)
    qed
  qed
qed

lemma checks_returnD:
  "checks_return P path \<Longrightarrow> a \<in> set path \<Longrightarrow> b \<in> set path
   \<Longrightarrow> \<exists>v. is_collision P a (Some b) = Some (Inr v)"
proof -
  assume "checks_return P path" and "a \<in> set path" and "b \<in> set path"
  then have "case is_collision P a (Some b) of Some (Inr v) \<Rightarrow> True | _ \<Rightarrow> False"
    unfolding checks_return_def list_all_iff by blast
  then show ?thesis
    by (cases "is_collision P a (Some b)") (auto split: sum.splits)
qed

lemma segments_clear_nth:
  "segments_clear P path \<Longrightarrow> Suc i < length path
   \<Longrightarrow> is_collision P (path ! i) (Some (path ! Suc i)) = Some (Inr False)"
proof (induction P path arbitrary: i rule: segments_clear.induct)
  case (1 P a b rest)
  then show ?case by (cases i) auto
qed simp_all

lemma segments_clear_snoc:
  "new_path \<noteq> [] \<Longrightarrow> segments_clear P new_path
   \<Longrightarrow> is_collision P (last new_path) (Some s) = Some (Inr False)
   \<Longrightarrow> segments_clear P (new_path @ [s])"
proof (induction P new_path rule: segments_clear.induct)
  case (1 P a b rest)
  then show ?case by simp
qed simp_all

lemma shortcut_total: "\<exists>r. shortcut P anchor last_pt goals start_pt idx = Some r"
proof (induction goals arbitrary: start_pt idx)
  case Nil
  then show ?case by (simp add: return_def)
next
  case (Cons g goals)
  obtain r0 where "is_collision P anchor (Some g) = Some r0"
    using is_collision_total by blast
  then show ?case using Cons.IH
    by (cases r0) (simp_all add: bind_r_def return_def)
qed

lemma shortcut_no_raise:
  "\<forall>g \<in> set goals. \<exists>v. is_collision P anchor (Some g) = Some (Inr v)
   \<Longrightarrow> \<exists>res. shortcut P anchor last_pt goals start_pt idx = Some (Inr res)"
proof (induction goals arbitrary: start_pt idx)
  case Nil
  then show ?case by (simp add: return_def)
next
  case (Cons g goals)
  then obtain v where "is_collision P anchor (Some g) = Some (Inr v)" by auto
  then show ?case using Cons by (simp add: bind_r_def return_def)
qed

lemma shortcut_Inr:
  assumes "shortcut P anchor last_pt goals start_pt idx = Some (Inr (app, idx'))"
    and "goals \<noteq> []" and "last goals = last_pt"
  shows "\<exists>k s. app = Some s \<and> idx' = idx + k \<and> k \<le> length goals
           \<and> (k = 0 \<longrightarrow> s = start_pt
                 \<and> is_collision P anchor (Some (hd goals)) = Some (Inr True))
           \<and> (0 < k \<longrightarrow> s = goals ! (k - 1)
                 \<and> is_collision P anchor (Some s) = Some (Inr False))"
  using assms
proof (induction goals arbitrary: start_pt idx)
  case Nil
  then show ?case by simp
next
  case (Cons g goals)
  obtain r0 where r0: "is_collision P anchor (Some g) = Some r0"
    using is_collision_total by blast
  show ?case
  proof (cases r0)
    case (Inl e)
    then show ?thesis using r0 Cons.prems(1) by (simp add: bind_r_def)
  next
    case (Inr blocked)
    show ?thesis
    proof (cases blocked)
      case True
      then have "app = Some start_pt" "idx' = idx"
        using r0 Inr Cons.prems(1) by (simp_all add: bind_r_def return_def)
      then show ?thesis using r0 Inr True
        by (intro exI[of _ "0::nat"] exI[of _ start_pt]) simp
    next
      case False
      have free: "is_collision P anchor (Some g) = Some (Inr False)"
        using r0 Inr False by simp
      show ?thesis
      proof (cases "g = last_pt")
        case True
        then have "app = Some g" "idx' = idx + 1"
          using free Cons.prems(1) by (simp_all add: bind_r_def return_def)
        then show ?thesis using free by (intro exI[of _ "1::nat"] exI[of _ g]) simp
      next
        case ne: False
        then have g: "goals \<noteq> []" "last goals = last_pt"
          using Cons.prems by (auto split: if_splits)
        have "shortcut P anchor last_pt goals g (idx + 1) = Some (Inr (app, idx'))"
          using free ne Cons.prems(1) by (simp add: bind_r_def)
        from Cons.IH[OF this g] obtain k s where
          ks: "app = Some s" "idx' = idx + 1 + k" "k \<le> length goals" "k = 0 \<longrightarrow> s = g"
            "0 < k \<longrightarrow> s = goals ! (k - 1) \<and> is_collision P anchor (Some s) = Some (Inr False)"
          by blast
        have "s = (g # goals) ! k" using ks(4,5) by (cases k) auto
        moreover have "is_collision P anchor (Some s) = Some (Inr False)"
          using ks(4,5) free by (cases k) auto
        ultimately show ?thesis using ks(1,2,3)
          by (intro exI[of _ "Suc k"] exI[of _ s]) simp
      qed
    qed
  qed
qed


lemma simplify_loop_run:
  assumes clear: "segments_clear P path"
    and inv: "new_path \<noteq> []" "1 \<le> idx" "idx \<le> length path"
      "last new_path = path ! (idx - 1)" "hd new_path = hd path"
      "segments_clear P new_path" "length new_path \<le> idx"
  shows "\<exists>r. simplify_loop P path new_path idx = Some r
           \<and> (\<forall>sp. r = Inr sp \<longrightarrow> sp \<noteq> [] \<and> hd sp = hd path \<and> last sp = last path
                        \<and> segments_clear P sp \<and> length sp \<le> length path)
           \<and> (checks_return P path \<longrightarrow> (\<exists>sp. r = Inr sp))"
  using inv
proof (induction "length path - idx" arbitrary: new_path idx rule: less_induct)
  case less
  have ne: "path \<noteq> []" using less.prems by auto
  show ?case
  proof (cases "last new_path = last path")
    case True
    then have "simplify_loop P path new_path idx = Some (Inr new_path)"
      by (subst simplify_loop.simps) simp
    then show ?thesis using less.prems True by simp
  next
    case False
    have lt: "idx < length path"
    proof (rule ccontr)
      assume "\<not> idx < length path"
      then have "idx = length path" using less.prems by simp
      then have "last new_path = last path" using less.prems ne by (simp add: last_conv_nth)
      then show False using False by simp
    qed
    let ?anchor = "last new_path"
    let ?goals = "drop idx path"
    have g: "?goals \<noteq> []" "last ?goals = last path" using lt by simp_all
    have hdg: "hd ?goals = path ! idx" using lt by (simp add: hd_drop_conv_nth)
    have first_free: "is_collision P ?anchor (Some (hd ?goals)) = Some (Inr False)"
      using segments_clear_nth[OF clear, of "idx - 1"] less.prems lt hdg by simp
    obtain r0 where r0: "shortcut P ?anchor (last path) ?goals ?anchor idx = Some r0"
      using shortcut_total by blast
    show ?thesis
    proof (cases r0)
      case (Inl e)
      then have run: "simplify_loop P path new_path idx = Some (Inl e)"
        using False r0 by (subst simplify_loop.simps) (simp add: bind_r_def)
      have "\<not> checks_return P path"
      proof
        assume cr: "checks_return P path"
        have "?anchor \<in> set path" using less.prems lt by simp
        moreover have "set ?goals \<subseteq> set path" by (rule set_drop_subset)
        ultimately have "\<forall>g \<in> set ?goals. \<exists>v. is_collision P ?anchor (Some g) = Some (Inr v)"
          using checks_returnD[OF cr] by blast
        from shortcut_no_raise[OF this, of "last path" ?anchor idx] r0 Inl
        show False by simp
      qed
      with run show ?thesis by simp
    next
      case (Inr res)
      obtain app idx' where res: "res = (app, idx')" by (cases res)
      from shortcut_Inr[OF r0[unfolded Inr res] g] obtain k s where
        ks: "app = Some s" "idx' = idx + k" "k \<le> length ?goals"
          "k = 0 \<longrightarrow> is_collision P ?anchor (Some (hd ?goals)) = Some (Inr True)"
          "0 < k \<longrightarrow> s = ?goals ! (k - 1) \<and> is_collision P ?anchor (Some s) = Some (Inr False)"
        by blast
      have k: "0 < k" using ks(4) first_free by (cases k) auto
      then have s: "s = path ! (idx + k - 1)" and free: "is_collision P ?anchor (Some s) = Some (Inr False)"
        using ks(3,5) lt by auto
      have step: "simplify_loop P path new_path idx = simplify_loop P path (new_path @ [s]) (idx + k)"
        using False r0 Inr res ks(1,2) by (subst simplify_loop.simps) (simp add: bind_r_def)
      have "length path - (idx + k) < length path - idx" using k lt by simp
      moreover have "new_path @ [s] \<noteq> []" by simp
      moreover have "1 \<le> idx + k" using k by simp
      moreover have "idx + k \<le> length path" using ks(3) lt by simp
      moreover have "last (new_path @ [s]) = path ! (idx + k - 1)" using s by simp
      moreover have "hd (new_path @ [s]) = hd path" using less.prems by simp
      moreover have "segments_clear P (new_path @ [s])"
        using segments_clear_snoc[OF less.prems(1) less.prems(6) free] .
      moreover have "length (new_path @ [s]) \<le> idx + k" using less.prems k by simp
      ultimately show ?thesis unfolding step by (rule less.hyps)
    qed
  qed
qed

lemma simplify_path_run:
  assumes "path \<noteq> []" and "segments_clear P path"
  shows "\<exists>r. simplify_path P path = Some r
           \<and> (\<forall>sp. r = Inr sp \<longrightarrow> sp \<noteq> [] \<and> hd sp = hd path \<and> last sp = last path
                        \<and> segments_clear P sp \<and> length sp \<le> length path)
           \<and> (checks_return P path \<longrightarrow> (\<exists>sp. r = Inr sp))"
proof -
  obtain p0 rest where p: "path = p0 # rest" using assms(1) by (cases path) auto
  have "simplify_path P path = simplify_loop P path [p0] 1" by (simp add: simplify_path_def p)
  moreover have "\<exists>r. simplify_loop P path [p0] 1 = Some r
           \<and> (\<forall>sp. r = Inr sp \<longrightarrow> sp \<noteq> [] \<and> hd sp = hd path \<and> last sp = last path
                        \<and> segments_clear P sp \<and> length sp \<le> length path)
           \<and> (checks_return P path \<longrightarrow> (\<exists>sp. r = Inr sp))"
    by (rule simplify_loop_run[OF assms(2)]) (simp_all add: p)
  ultimately show ?thesis by simp
qed

lemma simplify_loop_stuck:
  assumes blocked: "is_collision P a (Some b) = Some (Inr True)" and ne: "a \<noteq> b"
    and l: "last new_path = a"
  shows "simplify_loop P [a, b] new_path 1 = None"
proof (rule ccontr)
  assume "simplify_loop P [a, b] new_path 1 \<noteq> None"
  then obtain y where run: "simplify_loop P [a, b] new_path 1 = Some y" by auto
  have sc: "shortcut P a b [b] a 1 = Some (Inr (Some a, 1))"
    using blocked by (simp add: bind_r_def return_def)
  define Q :: "((planner \<times> point list) \<times> point list) \<times> nat \<Rightarrow> py_error + point list \<Rightarrow> bool"
    where "Q x r \<longleftrightarrow> \<not> (fst (fst (fst x)) = P \<and> snd (fst (fst x)) = [a, b]
                        \<and> last (snd (fst x)) = a \<and> snd x = 1)" for x r
  have "Q (((P, [a, b]), new_path), 1) y"
  proof (rule simplify_loop.raw_induct[OF _ run])
    fix f P' path np idx r
    assume IH: "\<And>P' path np idx r. f P' path np idx = Some r \<Longrightarrow> Q (((P', path), np), idx) r"
      and body: "(if last np \<noteq> last path
          then bind_r (shortcut P' (last np) (last path) (drop idx path) (last np) idx)
                 (\<lambda>r. f P' path (case fst r of None \<Rightarrow> np | Some s \<Rightarrow> np @ [s]) (snd r))
          else Some (Inr np)) = Some r"
    show "Q (((P', path), np), idx) r"
      unfolding Q_def
    proof
      assume "fst (fst (fst (((P', path), np), idx))) = P \<and> snd (fst (fst (((P', path), np), idx))) = [a, b]
                        \<and> last (snd (fst (((P', path), np), idx))) = a \<and> snd (((P', path), np), idx) = 1"
      then have *: "P' = P" "path = [a, b]" "last np = a" "idx = 1" by simp_all
      have "f P [a, b] (np @ [a]) 1 = Some r" using body ne sc unfolding * by (simp add: bind_r_def)
      from IH[OF this] show False by (simp add: Q_def)
    qed
  qed
  then show False using l by (simp add: Q_def)
qed

lemmas eval_collision = is_collision_def hits_obstacle_def post_obstacle_def on_segment_def
  uniform_grid_def eval_cells

lemma open_checks:
  "is_collision open_planner (1 / 2, 1 / 2) (Some (3 / 2, 1 / 2)) = Some (Inr False)"
  "is_collision open_planner (1 / 2, 1 / 2) (Some (5 / 2, 1 / 2)) = Some (Inr False)"
  "is_collision open_planner (1 / 2, 1 / 2) (Some (5 / 2, 3 / 2)) = Some (Inr True)"
  "is_collision open_planner (3 / 2, 1 / 2) (Some (5 / 2, 1 / 2)) = Some (Inr False)"
  "is_collision open_planner (5 / 2, 1 / 2) (Some (5 / 2, 3 / 2)) = Some (Inr False)"
  by (simp_all add: open_planner_def eval_collision)

lemma simplify_loop_unfold:
  "last new_path = last path \<Longrightarrow> simplify_loop P path new_path idx = Some (Inr new_path)"
  "last new_path \<noteq> last path
   \<Longrightarrow> shortcut P (last new_path) (last path) (drop idx path) (last new_path) idx
       = Some (Inr (app, idx'))
   \<Longrightarrow> simplify_loop P path new_path idx
       = simplify_loop P path (case app of None \<Rightarrow> new_path | Some s \<Rightarrow> new_path @ [s]) idx'"
  by (subst simplify_loop.simps, simp add: bind_r_def)+

lemma corner_simplified:
  "simplify_path open_planner corner_path = Some (Inr [(1 / 2, 1 / 2), (5 / 2, 1 / 2), (5 / 2, 3 / 2)])"
proof -
  have s1: "shortcut open_planner (1 / 2, 1 / 2) (5 / 2, 3 / 2)
              [(3 / 2, 1 / 2), (5 / 2, 1 / 2), (5 / 2, 3 / 2)] (1 / 2, 1 / 2) 1
            = Some (Inr (Some (5 / 2, 1 / 2), 3))"
    by (simp add: open_checks bind_r_def return_def)
  have s2: "shortcut open_planner (5 / 2, 1 / 2) (5 / 2, 3 / 2) [(5 / 2, 3 / 2)] (5 / 2, 1 / 2) 3
            = Some (Inr (Some (5 / 2, 3 / 2), 4))"
    by (simp add: open_checks bind_r_def return_def)
  have "simplify_path open_planner corner_path = simplify_loop open_planner corner_path [(1 / 2, 1 / 2)] 1"
    by (simp add: simplify_path_def corner_path_def)
  also have "\<dots> = simplify_loop open_planner corner_path [(1 / 2, 1 / 2), (5 / 2, 1 / 2)] 3"
    using s1 by (subst simplify_loop_unfold(2)[where app = "Some (5 / 2, 1 / 2)" and idx' = 3])
      (simp_all add: corner_path_def)
  also have "\<dots> = simplify_loop open_planner corner_path [(1 / 2, 1 / 2), (5 / 2, 1 / 2), (5 / 2, 3 / 2)] 4"
    using s2 by (subst simplify_loop_unfold(2)[where app = "Some (5 / 2, 3 / 2)" and idx' = 4])
      (simp_all add: corner_path_def)
  also have "\<dots> = Some (Inr [(1 / 2, 1 / 2), (5 / 2, 1 / 2), (5 / 2, 3 / 2)])"
    by (subst simplify_loop_unfold(1)) (simp_all add: corner_path_def)
  finally show ?thesis .
qed

lemma corner_clear: "segments_clear open_planner corner_path"
  by (simp add: corner_path_def open_checks)

lemma wall_blocked:
  "is_collision wall_planner (1 / 2, 1 / 2) (Some (3 / 2, 1 / 2)) = Some (Inr True)"
  by (simp add: wall_planner_def eval_collision)

text \<open>
  C3. For a raw path that is not empty and whose consecutive segments all pass the
  collision check: if no collision check between two of its points raises, the
  simplification returns a path; and every path it returns starts at the first point of
  the raw path, ends at its last point, has only consecutive pairs that pass the
  collision check, and has at most as many points as the raw path.
\<close>

theorem simplify_path_sound:
  assumes "path \<noteq> []" and "segments_clear P path"
  shows "(checks_return P path \<longrightarrow> (\<exists>sp. simplify_path P path = Some (Inr sp)))
       \<and> (\<forall>sp. simplify_path P path = Some (Inr sp) \<longrightarrow>
             sp \<noteq> [] \<and> hd sp = hd path \<and> last sp = last path
             \<and> segments_clear P sp \<and> length sp \<le> length path)"
  using simplify_path_run[OF assms] by auto

text \<open>The path along the bottom row and up the right column, around the post: its
  first and third segment can be joined, the post blocks the diagonal.\<close>

theorem simplify_path_sound_witness:
  "corner_path \<noteq> [] \<and> segments_clear open_planner corner_path
   \<and> checks_return open_planner corner_path
   \<and> simplify_path open_planner corner_path
       = Some (Inr [(1 / 2, 1 / 2), (5 / 2, 1 / 2), (5 / 2, 3 / 2)])
   \<and> hd [(1 / 2, 1 / 2), (5 / 2, 1 / 2), (5 / 2, 3 / 2)] = hd corner_path
   \<and> last [(1 / 2, 1 / 2), (5 / 2, 1 / 2), (5 / 2, 3 / 2)] = last corner_path
   \<and> segments_clear open_planner [(1 / 2, 1 / 2), (5 / 2, 1 / 2), (5 / 2, 3 / 2 :: real)]
   \<and> length [(1 / 2, 1 / 2), (5 / 2, 1 / 2), (5 / 2, 3 / 2 :: real)] \<le> length corner_path"
proof -
  have ne: "corner_path \<noteq> []" by (simp add: corner_path_def)
  have cr: "checks_return open_planner corner_path"
    by (simp add: checks_return_def corner_path_def open_planner_def eval_collision)
  from simplify_path_sound[OF ne corner_clear] corner_simplified ne corner_clear cr
  show ?thesis by (simp add: corner_path_def open_checks)
qed

text \<open>
  C10. For a path of at least two points whose consecutive segments all pass the
  collision check, the simplification loop ends (with a path or with an exception of a
  collision check). Without the precondition it need not: on the grid whose cells all
  cost 1, the segment from (0.5, 0.5) to (1.5, 0.5) is blocked, and on the path of these
  two points the loop appends its anchor for ever.
\<close>

theorem simplify_path_terminates:
  "(2 \<le> length path \<longrightarrow> segments_clear P path \<longrightarrow> (\<exists>r. simplify_path P path = Some r))
   \<and> \<not> segments_clear wall_planner [(1 / 2, 1 / 2), (3 / 2, 1 / 2)]
   \<and> simplify_path wall_planner [(1 / 2, 1 / 2), (3 / 2, 1 / 2)] = None"
proof (intro conjI impI)
  assume "2 \<le> length path" and c: "segments_clear P path"
  then have "path \<noteq> []" by auto
  from simplify_path_run[OF this c] show "\<exists>r. simplify_path P path = Some r" by blast
next
  show "\<not> segments_clear wall_planner [(1 / 2, 1 / 2), (3 / 2, 1 / 2)]"
    by (simp add: wall_blocked)
next
  have "simplify_loop wall_planner [(1 / 2, 1 / 2), (3 / 2, 1 / 2)] [(1 / 2, 1 / 2)] 1 = None"
    by (rule simplify_loop_stuck[OF wall_blocked]) simp_all
  then show "simplify_path wall_planner [(1 / 2, 1 / 2), (3 / 2, 1 / 2)] = None"
    by (simp add: simplify_path_def)
qed

theorem simplify_path_terminates_witness:
  "2 \<le> length corner_path \<and> segments_clear open_planner corner_path
   \<and> (\<exists>r. simplify_path open_planner corner_path = Some r)"
  using simplify_path_terminates[of corner_path open_planner] corner_clear
  by (simp add: corner_path_def)

section \<open>The parent relation stays a tree (C2)\<close>

lemma grid_nonnegD:
  "grid_nonneg P \<Longrightarrow> i < shape0 (grid P) \<Longrightarrow> j < shape1 (grid P) \<Longrightarrow> 0 \<le> item (grid P) i j"
  by (simp add: grid_nonneg_def list_all_iff)

lemma spec_average_cost_nonneg:
  assumes "grid_nonneg P"
  shows "0 \<le> spec_average_cost P cells"
proof -
  have "0 \<le> item (grid P) (nat (snd c)) (nat (fst c))" if "in_bounds P c" for c
    using that by (intro grid_nonnegD[OF assms]) (auto simp: in_bounds_def)
  then have "0 \<le> sum_list (map (\<lambda>c. item (grid P) (nat (snd c)) (nat (fst c)))
                      (filter (in_bounds P) cells))"
    by (intro sum_list_nonneg) auto
  then show ?thesis by (simp add: spec_average_cost_def Let_def)
qed

lemma dist_pt_nonneg: "0 \<le> dist_pt a b"
  by (simp add: dist_pt_def)

lemma path_cost_nonneg:
  assumes "grid_nonneg P" and "path_cost P a b = Some (Inr pc)"
  shows "0 \<le> pc"
proof -
  from assms(2) obtain ca cb where c: "to_cell P a = Inr ca" "to_cell P b = Inr cb"
    by (auto simp: path_cost_def split: sum.splits)
  obtain cells where "bresenham ca cb = Some cells" using bresenham_cells[of ca cb] by blast
  from path_cost_eq[OF c this] assms(2)
  have "pc = dist_pt a b * (1 + spec_average_cost P cells)" by simp
  then show ?thesis
    using dist_pt_nonneg[of a b] spec_average_cost_nonneg[OF assms(1), of cells] by simp
qed

lemma path_cost_returns:
  assumes "grid_scale P \<noteq> 0"
  shows "\<exists>pc. path_cost P a b = Some (Inr pc)"
proof -
  obtain cells where
    "bresenham (py_int (fst a / grid_scale P), py_int (snd a / grid_scale P))
       (py_int (fst b / grid_scale P), py_int (snd b / grid_scale P)) = Some cells"
    using bresenham_cells by blast
  from path_cost_eq[OF to_cell_ok[OF assms] to_cell_ok[OF assms] this] show ?thesis by blast
qed

lemma path_cost_total: "\<exists>r. path_cost P a b = Some r"
proof (cases "to_cell P a")
  case (Inl e)
  then show ?thesis by (simp add: path_cost_def)
next
  case ca: (Inr ca)
  show ?thesis
  proof (cases "to_cell P b")
    case (Inl e)
    then show ?thesis using ca by (simp add: path_cost_def)
  next
    case (Inr cb)
    obtain cells where "bresenham ca cb = Some cells" using bresenham_cells[of ca cb] by blast
    from path_cost_eq[OF ca Inr this] show ?thesis by simp
  qed
qed

lemma reaches_root_ancestor: "reaches_root par i \<Longrightarrow> ancestor par 0 i"
  by (induction rule: reaches_root.induct) (auto intro: ancestor.intros)

lemma reaches_root_dom: "reaches_root par i \<Longrightarrow> i \<in> dom par"
  by (induction rule: reaches_root.induct) auto

text \<open>A new entry for a key outside the dictionary leaves every chain as it is.\<close>

lemma reaches_root_add:
  "reaches_root par i \<Longrightarrow> n \<notin> dom par \<Longrightarrow> reaches_root (par(n \<mapsto> v)) i"
proof (induction rule: reaches_root.induct)
  case root
  then have "n \<noteq> 0" by (metis domI)
  then show ?case using root by (simp add: reaches_root.root)
next
  case (step i p)
  then have "i \<noteq> n" by auto
  then show ?case using step by (auto intro: reaches_root.step)
qed

text \<open>Re-parenting \<open>idx\<close> to a node \<open>m\<close> that does not have \<open>idx\<close> among its ancestors
  leaves every node connected to the root.\<close>

lemma reaches_root_avoid:
  "reaches_root par m \<Longrightarrow> \<not> ancestor par idx m \<Longrightarrow> reaches_root (par(idx \<mapsto> v)) m"
proof (induction rule: reaches_root.induct)
  case root
  have "idx \<noteq> 0" using root.prems ancestor.self[of par 0] by metis
  then show ?case using root by (simp add: reaches_root.root)
next
  case (step i p)
  have "idx \<noteq> i" using step.prems by (auto intro: ancestor.self)
  moreover have "\<not> ancestor par idx p" using step.prems step.hyps(1) by (auto intro: ancestor.up)
  ultimately show ?case using step by (auto intro: reaches_root.step)
qed

lemma reaches_root_rewire:
  assumes "reaches_root par j" and "reaches_root par m" and "\<not> ancestor par idx m"
  shows "reaches_root (par(idx \<mapsto> Some m)) j"
  using assms(1)
proof (induction rule: reaches_root.induct)
  case root
  have "idx \<noteq> 0" using reaches_root_ancestor[OF assms(2)] assms(3) by metis
  then show ?case using root by (simp add: reaches_root.root)
next
  case (step i p)
  show ?case
  proof (cases "i = idx")
    case True
    show ?thesis unfolding True
      by (rule reaches_root.step[of _ _ m]) (simp, rule reaches_root_avoid[OF assms(2,3)])
  next
    case False
    then show ?thesis using step by (auto intro: reaches_root.step)
  qed
qed

text \<open>Costs do not decrease from an ancestor to a descendant.\<close>

lemma ancestor_cost:
  assumes "\<And>i p. par i = Some (Some p) \<Longrightarrow> \<exists>cp ci. cst p = Some cp \<and> cst i = Some ci \<and> cp \<le> ci"
    and "ancestor par a b" and "cst a = Some ca" and "cst b = Some cb"
  shows "ca \<le> (cb :: real)"
  using assms(2,4)
proof (induction arbitrary: cb rule: ancestor.induct)
  case self
  then show ?case using assms(3) by simp
next
  case (up b p)
  from assms(1)[OF up.hyps(1)] up.prems obtain cp where "cst p = Some cp" "cp \<le> cb" by auto
  with up.IH[of cp] show ?case by simp
qed

lemma tree_invI:
  assumes "dom (parent t) = {..< length (nodes t)}" and "dom (cost t) = {..< length (nodes t)}"
    and "\<And>i p. parent t i = Some (Some p) \<Longrightarrow>
           p < length (nodes t)
           \<and> (\<exists>cp ci. cost t p = Some cp \<and> cost t i = Some ci \<and> cp \<le> ci)
           \<and> is_collision P (nodes t ! p) (Some (nodes t ! i)) = Some (Inr False)"
    and "\<And>i. i < length (nodes t) \<Longrightarrow> reaches_root (parent t) i"
  shows "tree_inv P t"
  unfolding tree_inv_def using assms by blast

lemma tree_invD:
  assumes "tree_inv P t"
  shows "dom (parent t) = {..< length (nodes t)}" and "dom (cost t) = {..< length (nodes t)}"
    and "\<And>i p. parent t i = Some (Some p) \<Longrightarrow>
           p < length (nodes t)
           \<and> (\<exists>cp ci. cost t p = Some cp \<and> cost t i = Some ci \<and> cp \<le> ci)
           \<and> is_collision P (nodes t ! p) (Some (nodes t ! i)) = Some (Inr False)"
    and "\<And>i. i < length (nodes t) \<Longrightarrow> reaches_root (parent t) i"
  using assms unfolding tree_inv_def by blast+

lemma tree_inv_init: "tree_inv P (init_tree P)"
proof (rule tree_invI)
  show "dom (parent (init_tree P)) = {..< length (nodes (init_tree P))}"
    by (simp add: init_tree_def lessThan_Suc)
  show "dom (cost (init_tree P)) = {..< length (nodes (init_tree P))}"
    by (simp add: init_tree_def lessThan_Suc)
next
  fix i p
  assume "parent (init_tree P) i = Some (Some p)"
  then have False by (cases "i = 0") (simp_all add: init_tree_def)
  then show "p < length (nodes (init_tree P))
           \<and> (\<exists>cp ci. cost (init_tree P) p = Some cp \<and> cost (init_tree P) i = Some ci \<and> cp \<le> ci)
           \<and> is_collision P (nodes (init_tree P) ! p) (Some (nodes (init_tree P) ! i)) = Some (Inr False)"
    by simp
next
  fix i
  assume "i < length (nodes (init_tree P))"
  then have "i = 0" by (simp add: init_tree_def)
  then show "reaches_root (parent (init_tree P)) i" by (simp add: init_tree_def reaches_root.root)
qed

text \<open>Appending a node whose parent \<open>mp\<close> is an older node of smaller or equal cost.\<close>

lemma add_node_inv:
  assumes inv: "tree_inv P t"
    and mp: "cost t mp = Some cp" "cp \<le> mc"
    and free: "is_collision P (nodes t ! mp) (Some np) = Some (Inr False)"
  shows "tree_inv P (t\<lparr>nodes := nodes t @ [np],
                       parent := (parent t)(length (nodes t) \<mapsto> Some mp),
                       cost := (cost t)(length (nodes t) \<mapsto> mc)\<rparr>)"
proof -
  let ?n = "length (nodes t)"
  let ?par = "(parent t)(?n \<mapsto> Some mp)"
  let ?cst = "(cost t)(?n \<mapsto> mc)"
  note dp = tree_invD(1)[OF inv] and dc = tree_invD(2)[OF inv]
    and edges = tree_invD(3)[OF inv] and rr = tree_invD(4)[OF inv]
  have mpn: "mp < ?n" using mp(1) dc by (metis domI lessThan_iff)
  have fresh: "?n \<notin> dom (parent t)" using dp by simp
  have e: "p < ?n + 1
           \<and> (\<exists>cp ci. ?cst p = Some cp \<and> ?cst i = Some ci \<and> cp \<le> ci)
           \<and> is_collision P ((nodes t @ [np]) ! p) (Some ((nodes t @ [np]) ! i)) = Some (Inr False)"
    if "?par i = Some (Some p)" for i p
  proof (cases "i = ?n")
    case True
    then have p: "p = mp" using that by simp
    have "(nodes t @ [np]) ! mp = nodes t ! mp" using mpn by (simp add: nth_append)
    moreover have "(nodes t @ [np]) ! ?n = np" by simp
    moreover have "?cst mp = Some cp" using mpn mp(1) by simp
    moreover have "?cst ?n = Some mc" by simp
    ultimately show ?thesis unfolding True p using mpn mp(2) free by simp
  next
    case False
    then have old: "parent t i = Some (Some p)" using that by simp
    then have i: "i < ?n" using dp by (metis domI lessThan_iff)
    from edges[OF old] obtain cp' ci where c: "p < ?n" "cost t p = Some cp'" "cost t i = Some ci"
      "cp' \<le> ci" "is_collision P (nodes t ! p) (Some (nodes t ! i)) = Some (Inr False)" by blast
    then show ?thesis using i False by (simp add: nth_append)
  qed
  have r: "reaches_root ?par i" if "i < ?n + 1" for i
  proof (cases "i = ?n")
    case True
    have "reaches_root ?par mp" using reaches_root_add[OF rr[OF mpn] fresh] .
    moreover have "?par ?n = Some (Some mp)" by simp
    ultimately show ?thesis unfolding True by (rule reaches_root.step[rotated])
  next
    case False
    then have "i < ?n" using that by simp
    from reaches_root_add[OF rr[OF this] fresh] show ?thesis .
  qed
  show ?thesis
  proof (rule tree_invI)
    show "dom (parent (t\<lparr>nodes := nodes t @ [np], parent := ?par, cost := ?cst\<rparr>))
          = {..< length (nodes (t\<lparr>nodes := nodes t @ [np], parent := ?par, cost := ?cst\<rparr>))}"
      using dp by (simp add: lessThan_Suc)
    show "dom (cost (t\<lparr>nodes := nodes t @ [np], parent := ?par, cost := ?cst\<rparr>))
          = {..< length (nodes (t\<lparr>nodes := nodes t @ [np], parent := ?par, cost := ?cst\<rparr>))}"
      using dc by (simp add: lessThan_Suc)
  next
    fix i p
    assume "parent (t\<lparr>nodes := nodes t @ [np], parent := ?par, cost := ?cst\<rparr>) i = Some (Some p)"
    then have "?par i = Some (Some p)" by simp
    from e[OF this]
    show "p < length (nodes (t\<lparr>nodes := nodes t @ [np], parent := ?par, cost := ?cst\<rparr>))
           \<and> (\<exists>cp ci. cost (t\<lparr>nodes := nodes t @ [np], parent := ?par, cost := ?cst\<rparr>) p = Some cp
                 \<and> cost (t\<lparr>nodes := nodes t @ [np], parent := ?par, cost := ?cst\<rparr>) i = Some ci \<and> cp \<le> ci)
           \<and> is_collision P (nodes (t\<lparr>nodes := nodes t @ [np], parent := ?par, cost := ?cst\<rparr>) ! p)
                (Some (nodes (t\<lparr>nodes := nodes t @ [np], parent := ?par, cost := ?cst\<rparr>) ! i)) = Some (Inr False)"
      by simp
  next
    fix i
    assume "i < length (nodes (t\<lparr>nodes := nodes t @ [np], parent := ?par, cost := ?cst\<rparr>))"
    then have "i < ?n + 1" by simp
    from r[OF this] show "reaches_root (parent (t\<lparr>nodes := nodes t @ [np], parent := ?par, cost := ?cst\<rparr>)) i"
      by simp
  qed
qed


text \<open>One rewiring: the node \<open>idx\<close> gets the parent \<open>new_idx\<close> and a strictly smaller
  cost. As no segment has a negative cost, \<open>idx\<close> is not an ancestor of \<open>new_idx\<close>.\<close>

lemma rewire_update_inv:
  assumes inv: "tree_inv P t" and nn: "grid_nonneg P"
    and new: "new_idx < length (nodes t)"
    and idx: "idx < length (nodes t)"
    and cn: "cost t new_idx = Some cn" and ci: "cost t idx = Some ci"
    and pc: "path_cost P (nodes t ! new_idx) (nodes t ! idx) = Some (Inr pc)"
    and lt: "cn + pc < ci"
    and free: "is_collision P (nodes t ! new_idx) (Some (nodes t ! idx)) = Some (Inr False)"
  shows "tree_inv P (t\<lparr>parent := (parent t)(idx \<mapsto> Some new_idx),
                       cost := (cost t)(idx \<mapsto> cn + pc)\<rparr>)"
proof -
  let ?n = "length (nodes t)"
  let ?par = "(parent t)(idx \<mapsto> Some new_idx)"
  let ?cst = "(cost t)(idx \<mapsto> cn + pc)"
  note dp = tree_invD(1)[OF inv] and dc = tree_invD(2)[OF inv]
    and edges = tree_invD(3)[OF inv] and rr = tree_invD(4)[OF inv]
  have pc0: "0 \<le> pc" using path_cost_nonneg[OF nn pc] .
  then have less: "cn < ci" using lt by simp
  then have ne: "new_idx \<noteq> idx" using cn ci by auto
  have mono: "\<exists>cp ci. cost t p = Some cp \<and> cost t i = Some ci \<and> cp \<le> ci"
    if "parent t i = Some (Some p)" for i p
    using edges[OF that] by blast
  have na: "\<not> ancestor (parent t) idx new_idx"
  proof
    assume "ancestor (parent t) idx new_idx"
    from ancestor_cost[of "parent t" "cost t", OF mono this ci cn]
    have "ci \<le> cn" .
    then show False using less by simp
  qed
  have e: "p < ?n
           \<and> (\<exists>cp ci. ?cst p = Some cp \<and> ?cst i = Some ci \<and> cp \<le> ci)
           \<and> is_collision P (nodes t ! p) (Some (nodes t ! i)) = Some (Inr False)"
    if "?par i = Some (Some p)" for i p
  proof (cases "i = idx")
    case True
    then have p: "p = new_idx" using that by simp
    have "?cst new_idx = Some cn" using ne cn by simp
    moreover have "?cst idx = Some (cn + pc)" by simp
    ultimately show ?thesis unfolding True p using new pc0 free by simp
  next
    case False
    then have old: "parent t i = Some (Some p)" using that by simp
    from edges[OF old] obtain cp ci' where c: "p < ?n" "cost t p = Some cp" "cost t i = Some ci'"
      "cp \<le> ci'" "is_collision P (nodes t ! p) (Some (nodes t ! i)) = Some (Inr False)" by blast
    have ci': "?cst i = Some ci'" using False c(3) by simp
    show ?thesis
    proof (cases "p = idx")
      case True
      then have "cp = ci" using c(2) ci by simp
      then have "cn + pc \<le> ci'" using lt c(4) by simp
      moreover have "?cst p = Some (cn + pc)" using True by simp
      ultimately show ?thesis using c(1,5) ci' by simp
    next
      case False
      then have "?cst p = Some cp" using c(2) by simp
      then show ?thesis using c(1,4,5) ci' by simp
    qed
  qed
  have r: "reaches_root ?par i" if "i < ?n" for i
    using reaches_root_rewire[OF rr[OF that] rr[OF new] na] .
  have ins: "insert idx {..< ?n} = {..< ?n}" using idx by auto
  show ?thesis
  proof (rule tree_invI)
    show "dom (parent (t\<lparr>parent := ?par, cost := ?cst\<rparr>))
          = {..< length (nodes (t\<lparr>parent := ?par, cost := ?cst\<rparr>))}"
      using dp ins by simp
    show "dom (cost (t\<lparr>parent := ?par, cost := ?cst\<rparr>))
          = {..< length (nodes (t\<lparr>parent := ?par, cost := ?cst\<rparr>))}"
      using dc ins by simp
  next
    fix i p
    assume "parent (t\<lparr>parent := ?par, cost := ?cst\<rparr>) i = Some (Some p)"
    then have "?par i = Some (Some p)" by simp
    from e[OF this]
    show "p < length (nodes (t\<lparr>parent := ?par, cost := ?cst\<rparr>))
           \<and> (\<exists>cp ci. cost (t\<lparr>parent := ?par, cost := ?cst\<rparr>) p = Some cp
                 \<and> cost (t\<lparr>parent := ?par, cost := ?cst\<rparr>) i = Some ci \<and> cp \<le> ci)
           \<and> is_collision P (nodes (t\<lparr>parent := ?par, cost := ?cst\<rparr>) ! p)
                (Some (nodes (t\<lparr>parent := ?par, cost := ?cst\<rparr>) ! i)) = Some (Inr False)"
      by simp
  next
    fix i
    assume "i < length (nodes (t\<lparr>parent := ?par, cost := ?cst\<rparr>))"
    then have "i < ?n" by simp
    from r[OF this] show "reaches_root (parent (t\<lparr>parent := ?par, cost := ?cst\<rparr>)) i"
      by simp
  qed
qed

lemma nth_r_Inr: "nth_r xs i = Inr v \<longleftrightarrow> i < length xs \<and> v = xs ! i"
  by (auto simp: nth_r_def)

lemma lookup_Inr: "lookup d k = Inr v \<longleftrightarrow> d k = Some v"
  by (cases "d k") (auto simp: lookup_def)

lemma bind_r_Inr:
  "bind_r m f = Some (Inr v) \<longleftrightarrow> (\<exists>u. m = Some (Inr u) \<and> f u = Some (Inr v))"
  by (auto simp: bind_r_def split: option.splits sum.splits)

lemma case_sum_Inr:
  "(case r of Inl e \<Rightarrow> Some (Inl e) | Inr v \<Rightarrow> f v) = Some (Inr w)
   \<longleftrightarrow> (\<exists>v. r = Inr v \<and> f v = Some (Inr w))"
  by (cases r) auto

lemmas run_Inr = bind_r_Inr case_sum_Inr nth_r_Inr lookup_Inr

text \<open>The rewiring loop keeps the invariant and the list of nodes.\<close>

lemma rewire_inv:
  assumes nn: "grid_nonneg P"
  shows "rewire P new_idx (nodes t ! new_idx) mp near t = Some (Inr t')
         \<Longrightarrow> tree_inv P t \<Longrightarrow> new_idx < length (nodes t)
         \<Longrightarrow> tree_inv P t' \<and> nodes t' = nodes t"
proof (induction near arbitrary: t)
  case Nil
  then show ?case by (simp add: return_def)
next
  case (Cons idx rest)
  show ?case
  proof (cases "idx = mp")
    case True
    then have "rewire P new_idx (nodes t ! new_idx) mp rest t = Some (Inr t')"
      using Cons.prems(1) by simp
    from Cons.IH[OF this Cons.prems(2,3)] show ?thesis .
  next
    case False
    from Cons.prems(1) False obtain cn pc ci where
      idx: "idx < length (nodes t)" and cn: "cost t new_idx = Some cn"
      and pc: "path_cost P (nodes t ! new_idx) (nodes t ! idx) = Some (Inr pc)"
      and ci: "cost t idx = Some ci"
      and rest: "(if cn + pc < ci
                  then bind_r (is_collision P (nodes t ! new_idx) (Some (nodes t ! idx)))
                         (\<lambda>blocked.
                            if \<not> blocked
                            then rewire P new_idx (nodes t ! new_idx) mp rest
                                   (t\<lparr>parent := (parent t)(idx \<mapsto> Some new_idx),
                                      cost := (cost t)(idx \<mapsto> cn + pc)\<rparr>)
                            else rewire P new_idx (nodes t ! new_idx) mp rest t)
                  else rewire P new_idx (nodes t ! new_idx) mp rest t) = Some (Inr t')"
      by (auto simp: run_Inr)
    show ?thesis
    proof (cases "cn + pc < ci")
      case lt: True
      from rest lt obtain blocked where
        b: "is_collision P (nodes t ! new_idx) (Some (nodes t ! idx)) = Some (Inr blocked)"
        and rest': "(if \<not> blocked
                     then rewire P new_idx (nodes t ! new_idx) mp rest
                            (t\<lparr>parent := (parent t)(idx \<mapsto> Some new_idx),
                               cost := (cost t)(idx \<mapsto> cn + pc)\<rparr>)
                     else rewire P new_idx (nodes t ! new_idx) mp rest t) = Some (Inr t')"
        by (auto simp: bind_r_Inr)
      show ?thesis
      proof (cases blocked)
        case True
        then have "rewire P new_idx (nodes t ! new_idx) mp rest t = Some (Inr t')"
          using rest' by simp
        from Cons.IH[OF this Cons.prems(2,3)] show ?thesis .
      next
        case False
        let ?t = "t\<lparr>parent := (parent t)(idx \<mapsto> Some new_idx),
                       cost := (cost t)(idx \<mapsto> cn + pc)\<rparr>"
        have free: "is_collision P (nodes t ! new_idx) (Some (nodes t ! idx)) = Some (Inr False)"
          using b False by simp
        have inv: "tree_inv P ?t"
          using rewire_update_inv[OF Cons.prems(2) nn Cons.prems(3) idx cn ci pc lt free] .
        have "rewire P new_idx (nodes ?t ! new_idx) mp rest ?t = Some (Inr t')"
          using rest' False by simp
        from Cons.IH[OF this inv] Cons.prems(3) show ?thesis by simp
      qed
    next
      case False
      then have "rewire P new_idx (nodes t ! new_idx) mp rest t = Some (Inr t')"
        using rest by simp
      from Cons.IH[OF this Cons.prems(2,3)] show ?thesis .
    qed
  qed
qed

text \<open>The parent chosen for the new node is an older node whose cost is not larger
  than the cost chosen and whose segment to the new point passed the collision check.\<close>

lemma choose_parent_result:
  assumes nn: "grid_nonneg P"
  shows "choose_parent P t np near mc mp = Some (Inr (mc', mp'))
         \<Longrightarrow> \<exists>cp. cost t mp = Some cp \<and> cp \<le> mc
         \<Longrightarrow> is_collision P (nodes t ! mp) (Some np) = Some (Inr False)
         \<Longrightarrow> (\<exists>cp. cost t mp' = Some cp \<and> cp \<le> mc')
             \<and> is_collision P (nodes t ! mp') (Some np) = Some (Inr False)"
proof (induction near arbitrary: mc mp)
  case Nil
  then show ?case by (simp add: return_def)
next
  case (Cons idx rest)
  from Cons.prems(1) obtain blocked where
    idx: "idx < length (nodes t)"
    and b: "is_collision P (nodes t ! idx) (Some np) = Some (Inr blocked)"
    and rest: "(if \<not> blocked
                then (case lookup (cost t) idx of Inl e \<Rightarrow> Some (Inl e)
                      | Inr ci \<Rightarrow>
                          bind_r (path_cost P (nodes t ! idx) np)
                            (\<lambda>pc. if ci + pc < mc
                                   then choose_parent P t np rest (ci + pc) idx
                                   else choose_parent P t np rest mc mp))
                else choose_parent P t np rest mc mp) = Some (Inr (mc', mp'))"
    by (auto simp: run_Inr)
  show ?case
  proof (cases blocked)
    case True
    then have "choose_parent P t np rest mc mp = Some (Inr (mc', mp'))" using rest by simp
    from Cons.IH[OF this Cons.prems(2,3)] show ?thesis .
  next
    case False
    from rest False obtain ci pc where ci: "cost t idx = Some ci"
      and pc: "path_cost P (nodes t ! idx) np = Some (Inr pc)"
      and rest': "(if ci + pc < mc then choose_parent P t np rest (ci + pc) idx
                   else choose_parent P t np rest mc mp) = Some (Inr (mc', mp'))"
      by (auto simp: run_Inr)
    show ?thesis
    proof (cases "ci + pc < mc")
      case True
      then have run: "choose_parent P t np rest (ci + pc) idx = Some (Inr (mc', mp'))"
        using rest' by simp
      have "\<exists>cp. cost t idx = Some cp \<and> cp \<le> ci + pc"
        using ci path_cost_nonneg[OF nn pc] by simp
      moreover have "is_collision P (nodes t ! idx) (Some np) = Some (Inr False)"
        using b False by simp
      ultimately show ?thesis using Cons.IH[OF run] by blast
    next
      case False
      then have "choose_parent P t np rest mc mp = Some (Inr (mc', mp'))" using rest' by simp
      from Cons.IH[OF this Cons.prems(2,3)] show ?thesis .
    qed
  qed
qed

lemma return_Inr [simp]: "return v = Some (Inr w) \<longleftrightarrow> v = w"
  by (auto simp: return_def)

lemma extend_inv:
  assumes nn: "grid_nonneg P" and inv: "tree_inv P t"
    and near: "nth_r (nodes t) nearest_idx = Inr nearest"
    and free: "is_collision P nearest (Some new_point) = Some (Inr False)"
    and run: "extend P t nearest_idx nearest new_point = Some (Inr (t', new_idx))"
  shows "tree_inv P t' \<and> new_idx = length (nodes t) \<and> nodes t' = nodes t @ [new_point]"
proof -
  let ?n = "length (nodes t)"
  let ?t1 = "t\<lparr>nodes := nodes t @ [new_point]\<rparr>"
  let ?near = "get_near_nodes P ?t1 new_point"
  from near have ni: "nearest_idx < ?n" and nv: "nearest = nodes t ! nearest_idx"
    by (simp_all add: nth_r_Inr)
  from run obtain c0 pc0 m t3 where
    c0: "cost t nearest_idx = Some c0"
    and pc0: "path_cost P nearest new_point = Some (Inr pc0)"
    and cp: "choose_parent P ?t1 new_point ?near (c0 + pc0) nearest_idx = Some (Inr m)"
    and rw: "rewire P ?n new_point (snd m) ?near
               (?t1\<lparr>parent := (parent ?t1)(?n \<mapsto> Some (snd m)),
                    cost := (cost ?t1)(?n \<mapsto> fst m)\<rparr>) = Some (Inr t3)"
    and res: "t' = t3" "new_idx = ?n"
    by (auto simp: extend_def Let_def run_Inr)
  obtain mc mp where m: "m = (mc, mp)" by (cases m)
  have "\<exists>cp. cost ?t1 nearest_idx = Some cp \<and> cp \<le> c0 + pc0"
    using c0 path_cost_nonneg[OF nn pc0] by simp
  moreover have "is_collision P (nodes ?t1 ! nearest_idx) (Some new_point) = Some (Inr False)"
    using free ni nv by (simp add: nth_append)
  ultimately have "(\<exists>cp. cost ?t1 mp = Some cp \<and> cp \<le> mc)
             \<and> is_collision P (nodes ?t1 ! mp) (Some new_point) = Some (Inr False)"
    using choose_parent_result[OF nn cp[unfolded m]] by blast
  then obtain cp where cpm: "cost t mp = Some cp" "cp \<le> mc"
    and fr: "is_collision P (nodes ?t1 ! mp) (Some new_point) = Some (Inr False)"
    by auto
  have "mp \<in> dom (cost t)" using cpm(1) by blast
  then have "mp < ?n" using tree_invD(2)[OF inv] by simp
  then have fr': "is_collision P (nodes t ! mp) (Some new_point) = Some (Inr False)"
    using fr by (simp add: nth_append)
  let ?t2 = "t\<lparr>nodes := nodes t @ [new_point],
                 parent := (parent t)(?n \<mapsto> Some mp),
                 cost := (cost t)(?n \<mapsto> mc)\<rparr>"
  have inv2: "tree_inv P ?t2" using add_node_inv[OF inv cpm fr'] .
  have "rewire P ?n (nodes ?t2 ! ?n) mp ?near ?t2 = Some (Inr t3)"
    using rw by (simp add: m)
  from rewire_inv[OF nn this inv2] have "tree_inv P t3 \<and> nodes t3 = nodes ?t2" by simp
  then show ?thesis using res by simp
qed

lemma connect_goal_inv:
  assumes nn: "grid_nonneg P" and inv: "tree_inv P t"
    and new: "new_idx < length (nodes t)" "nodes t ! new_idx = new_point"
    and run: "connect_goal P t new_idx new_point = Some (Inr (t', res))"
  shows "tree_inv P t'"
proof (cases "dist_pt (goal P) new_point < goal_tolerance P")
  case False
  then show ?thesis using run inv by (simp add: connect_goal_def)
next
  case True
  with run obtain blocked where
    b: "is_collision P new_point (Some (goal P)) = Some (Inr blocked)"
    and k: "(if \<not> blocked
             then (let goal_idx = length (nodes t);
                       t1 = t\<lparr>nodes := nodes t @ [goal P]\<rparr>
                   in case lookup (cost t1) new_idx of Inl e \<Rightarrow> Some (Inl e)
                      | Inr cn \<Rightarrow>
                          bind_r (path_cost P new_point (goal P))
                            (\<lambda>pc. let t2 = t1\<lparr>parent := (parent t1)(goal_idx \<mapsto> Some new_idx),
                                              cost := (cost t1)(goal_idx \<mapsto> cn + pc)\<rparr>
                                   in bind_r (reconstruct_path P t2 goal_idx)
                                        (\<lambda>path. return (t2, Some path))))
             else return (t, None)) = Some (Inr (t', res))"
    by (auto simp: connect_goal_def run_Inr)
  show ?thesis
  proof (cases blocked)
    case True
    then show ?thesis using k inv by simp
  next
    case False
    with k obtain cn pc where cn: "cost t new_idx = Some cn"
      and pc: "path_cost P new_point (goal P) = Some (Inr pc)"
      and t': "t' = t\<lparr>nodes := nodes t @ [goal P],
                       parent := (parent t)(length (nodes t) \<mapsto> Some new_idx),
                       cost := (cost t)(length (nodes t) \<mapsto> cn + pc)\<rparr>"
      by (auto simp: Let_def run_Inr)
    have "cn \<le> cn + pc" using path_cost_nonneg[OF nn pc] by simp
    moreover have "is_collision P (nodes t ! new_idx) (Some (goal P)) = Some (Inr False)"
      using b False new by simp
    ultimately show ?thesis unfolding t' using add_node_inv[OF inv cn] by blast
  qed
qed

lemma candidate_nearest:
  "candidate P t rng k = Some (Inr (ni, nr, np, k')) \<Longrightarrow> nth_r (nodes t) ni = Inr nr"
  by (auto simp: candidate_def run_Inr split: prod.splits)

lemma pick_new_point_nearest:
  assumes "pick_new_point P t rng k = Some (Inr (ni, nr, np, k'))"
  shows "nth_r (nodes t) ni = Inr nr"
proof -
  define Q :: "((planner \<times> tree) \<times> (nat \<Rightarrow> real)) \<times> nat
               \<Rightarrow> py_error + nat \<times> point \<times> point \<times> nat \<Rightarrow> bool"
    where "Q x r \<longleftrightarrow> (\<forall>c. r = Inr c \<longrightarrow> nth_r (nodes (snd (fst (fst x)))) (fst c) = Inr (fst (snd c)))"
    for x r
  have "Q (((P, t), rng), k) (Inr (ni, nr, np, k'))"
  proof (rule pick_new_point.raw_induct[OF _ assms])
    fix f P' t' rng' k0 r
    assume IH: "\<And>P' t' rng' k0 r. f P' t' rng' k0 = Some r \<Longrightarrow> Q (((P', t'), rng'), k0) r"
      and body: "bind_r (candidate P' t' rng' k0)
         (\<lambda>c. bind_r (is_collision P' (fst (snd (snd c))) None)
            (\<lambda>blocked.
               if \<not> blocked then return c
               else (case get_grid_cost P' (fst (snd (snd c))) of Inl e \<Rightarrow> Some (Inl e)
                     | Inr gc \<Rightarrow>
                         if gc < traversability_threshold P' then return c
                         else f P' t' rng' (snd (snd (snd c)))))) = Some r"
    show "Q (((P', t'), rng'), k0) r"
      unfolding Q_def
    proof (intro allI impI)
      fix c assume r: "r = Inr c"
      from body[unfolded r] obtain c0 blocked where
        c0: "candidate P' t' rng' k0 = Some (Inr c0)"
        and k: "(if \<not> blocked then return c0
               else (case get_grid_cost P' (fst (snd (snd c0))) of Inl e \<Rightarrow> Some (Inl e)
                     | Inr gc \<Rightarrow>
                         if gc < traversability_threshold P' then return c0
                         else f P' t' rng' (snd (snd (snd c0))))) = Some (Inr c)"
        by (auto simp: run_Inr)
      have cand: "nth_r (nodes t') (fst c0) = Inr (fst (snd c0))"
        using candidate_nearest[of P' t' rng' k0 "fst c0" "fst (snd c0)" "fst (snd (snd c0))"
            "snd (snd (snd c0))"] c0 by simp
      consider "c = c0" | "f P' t' rng' (snd (snd (snd c0))) = Some (Inr c)"
        using k by (auto simp: run_Inr split: if_splits)
      then show "nth_r (nodes (snd (fst (fst (((P', t'), rng'), k0))))) (fst c) = Inr (fst (snd c))"
      proof cases
        case 1
        then show ?thesis using cand by simp
      next
        case 2
        from IH[OF this] show ?thesis by (simp add: Q_def)
      qed
    qed
  qed
  then show ?thesis by (simp add: Q_def)
qed

lemma find_loop_inv:
  assumes nn: "grid_nonneg P"
  shows "find_loop P rng n t k = Some (Inr (res, t')) \<Longrightarrow> tree_inv P t \<Longrightarrow> tree_inv P t'"
proof (induction n arbitrary: t k)
  case 0
  then show ?case by simp
next
  case (Suc n)
  from Suc.prems(1) obtain ni nr np k' blocked where
    pick: "pick_new_point P t rng k = Some (Inr (ni, nr, np, k'))"
    and b: "is_collision P nr (Some np) = Some (Inr blocked)"
    and rest: "(if \<not> blocked
               then bind_r (extend P t ni nr np)
                      (\<lambda>e. bind_r (connect_goal P (fst e) (snd e) np)
                         (\<lambda>r. case snd r of
                                 Some path \<Rightarrow> return (Some path, fst r)
                               | None \<Rightarrow> find_loop P rng n (fst r) k'))
               else find_loop P rng n t k') = Some (Inr (res, t'))"
    by (auto simp: run_Inr split: prod.splits)
  show ?case
  proof (cases blocked)
    case True
    then have "find_loop P rng n t k' = Some (Inr (res, t'))" using rest by simp
    from Suc.IH[OF this Suc.prems(2)] show ?thesis .
  next
    case False
    with rest obtain e r where
      ext0: "extend P t ni nr np = Some (Inr e)"
      and con0: "connect_goal P (fst e) (snd e) np = Some (Inr r)"
      and fin0: "(case snd r of Some path \<Rightarrow> return (Some path, fst r)
                 | None \<Rightarrow> find_loop P rng n (fst r) k') = Some (Inr (res, t'))"
      by (auto simp: run_Inr)
    obtain t1 new_idx where e: "e = (t1, new_idx)" by (cases e)
    obtain t2 r2 where r: "r = (t2, r2)" by (cases r)
    have ext: "extend P t ni nr np = Some (Inr (t1, new_idx))" using ext0 e by simp
    have con: "connect_goal P t1 new_idx np = Some (Inr (t2, r2))" using con0 e r by simp
    have fin: "(case r2 of Some path \<Rightarrow> return (Some path, t2)
                 | None \<Rightarrow> find_loop P rng n t2 k') = Some (Inr (res, t'))"
      using fin0 unfolding r by (cases r2) auto
    have free: "is_collision P nr (Some np) = Some (Inr False)" using b False by simp
    from extend_inv[OF nn Suc.prems(2) pick_new_point_nearest[OF pick] free ext]
    have inv1: "tree_inv P t1" and ni: "new_idx = length (nodes t)"
      and nodes1: "nodes t1 = nodes t @ [np]" by simp_all
    have inv2: "tree_inv P t2"
      by (rule connect_goal_inv[OF nn inv1 _ _ con]) (simp_all add: ni nodes1)
    show ?thesis
    proof (cases r2)
      case None
      then have "find_loop P rng n t2 k' = Some (Inr (res, t'))" using fin by simp
      from Suc.IH[OF this inv2] show ?thesis .
    next
      case (Some path)
      then have "t' = t2" using fin by simp
      then show ?thesis using inv2 by simp
    qed
  qed
qed

lemma reaches_root_root: "reaches_root par i \<Longrightarrow> par 0 = Some None"
  by (induction rule: reaches_root.induct) simp_all

lemma ancestor_trans: "ancestor par b c \<Longrightarrow> ancestor par a b \<Longrightarrow> ancestor par a c"
proof (induction rule: ancestor.induct)
  case self
  then show ?case .
next
  case (up c p)
  from up.IH[OF up.prems] up.hyps(1) show ?case by (rule ancestor.up[rotated])
qed

text \<open>A node that reaches the root is not on a cycle: it is not an ancestor of its own
  parent.\<close>

lemma reaches_root_no_cycle:
  "reaches_root par i \<Longrightarrow> par i = Some (Some p) \<Longrightarrow> \<not> ancestor par i p"
proof (induction arbitrary: p rule: reaches_root.induct)
  case root
  then show ?case by simp
next
  case (step i q)
  from step.prems step.hyps(1) have pq: "p = q" by simp
  show ?case
  proof
    assume "ancestor par i p"
    then have a: "ancestor par i q" using pq by simp
    have qi: "ancestor par q i" using step.hyps(1) ancestor.self[of par q] by (rule ancestor.up)
    from a show False
    proof (cases rule: ancestor.cases)
      case self
      then have "par q = Some (Some q)" using step.hyps(1) by simp
      from step.IH[OF this] ancestor.self[of par q] show False by simp
    next
      case (up p')
      have "ancestor par q p'" using ancestor_trans[OF up(2) qi] .
      with step.IH[OF up(1)] show False by simp
    qed
  qed
qed

lemma dist_pt_horizontal: "dist_pt (x1, y) (x2, y) = \<bar>x2 - x1\<bar>"
  by (simp add: dist_pt_def)

section \<open>A run of two iterations on a free grid\<close>

lemma pick_new_point_step:
  assumes "candidate P t rng k = Some (Inr c)"
  shows "pick_new_point P t rng k =
           bind_r (is_collision P (fst (snd (snd c))) None)
             (\<lambda>blocked.
                if \<not> blocked then return c
                else (case get_grid_cost P (fst (snd (snd c))) of Inl e \<Rightarrow> Some (Inl e)
                      | Inr gc \<Rightarrow>
                          if gc < traversability_threshold P then return c
                          else pick_new_point P t rng (snd (snd (snd c)))))"
  by (subst pick_new_point.simps) (simp add: assms bind_r_def)

lemma is_collision_point: "is_collision P p None = Some (Inr (hits_obstacle P (Point p)))"
  by (simp add: is_collision_def)

lemma line_sel:
  "start line_planner = (1 / 2, 1 / 2)" "goal line_planner = (7 / 2, 1 / 2)"
  "obstacles line_planner = []" "step_size line_planner = 1"
  "neighbor_radius line_planner = 3 / 2" "traversability_threshold line_planner = 3 / 4"
  "simplify line_planner = True" "max_iter line_planner = 2"
  by (simp_all add: line_planner_def)

lemmas eval_tree = extend_def connect_goal_def goal_tolerance_def Let_def lookup_def nth_r_def
  bind_r_def return_def get_near_nodes_def dist_pt_horizontal numeral_2_eq_2

lemmas eval_pick = candidate_def always_goal_def bind_r_def return_def nearest_node_def
  nth_r_def steer_def dist_pt_horizontal is_collision_point hits_obstacle_def

lemma line_free:
  "is_collision line_planner (1 / 2, 1 / 2) (Some (3 / 2, 1 / 2)) = Some (Inr False)"
  "is_collision line_planner (3 / 2, 1 / 2) (Some (5 / 2, 1 / 2)) = Some (Inr False)"
  by (simp_all add: line_planner_def eval_collision)

lemma line_cost:
  "path_cost line_planner (1 / 2, 1 / 2) (3 / 2, 1 / 2) = Some (Inr 1)"
  "path_cost line_planner (3 / 2, 1 / 2) (5 / 2, 1 / 2) = Some (Inr 1)"
  by (simp_all add: path_cost_def line_planner_def uniform_grid_def eval_cells dist_pt_horizontal)

lemma line_cand1:
  "candidate line_planner (init_tree line_planner) always_goal k
   = Some (Inr (0, (1 / 2, 1 / 2), (3 / 2, 1 / 2), Suc k))"
  by (simp add: eval_pick init_tree_def line_sel)

lemma line_pick1:
  "pick_new_point line_planner (init_tree line_planner) always_goal k
   = Some (Inr (0, (1 / 2, 1 / 2), (3 / 2, 1 / 2), Suc k))"
  by (subst pick_new_point_step[OF line_cand1]) (simp add: eval_pick line_sel)

lemma line_ext1:
  "extend line_planner (init_tree line_planner) 0 (1 / 2, 1 / 2) (3 / 2, 1 / 2)
   = Some (Inr (line_tree1, Suc 0))"
  by (simp add: eval_tree init_tree_def line_tree1_def line_cost line_free line_sel)

lemma line_con1:
  "connect_goal line_planner line_tree1 (Suc 0) (3 / 2, 1 / 2) = Some (Inr (line_tree1, None))"
  by (simp add: eval_tree line_sel)

lemma line_cand2:
  "candidate line_planner line_tree1 always_goal k
   = Some (Inr (Suc 0, (3 / 2, 1 / 2), (5 / 2, 1 / 2), Suc k))"
  by (simp add: eval_pick line_tree1_def line_sel)

lemma line_pick2:
  "pick_new_point line_planner line_tree1 always_goal k
   = Some (Inr (Suc 0, (3 / 2, 1 / 2), (5 / 2, 1 / 2), Suc k))"
  by (subst pick_new_point_step[OF line_cand2]) (simp add: eval_pick line_sel)

lemma line_ext2:
  "extend line_planner line_tree1 (Suc 0) (3 / 2, 1 / 2) (5 / 2, 1 / 2)
   = Some (Inr (line_tree2, Suc (Suc 0)))"
  by (simp add: eval_tree line_tree1_def line_tree2_def line_cost line_free line_sel)

lemma line_con2:
  "connect_goal line_planner line_tree2 (Suc (Suc 0)) (5 / 2, 1 / 2)
   = Some (Inr (line_tree2, None))"
  by (simp add: eval_tree line_sel)

lemma line_run:
  "find_loop line_planner always_goal 2 (init_tree line_planner) 0 = Some (Inr (None, line_tree2))"
  by (simp add: numeral_2_eq_2 line_pick1 line_pick2 line_free line_ext1 line_ext2 line_con1
      line_con2 bind_r_def return_def)

section \<open>The outcomes of \<open>find_path\<close> (C4, C5, C6)\<close>

text \<open>One iteration of the main loop, taken apart.\<close>

lemma find_loop_Suc_cases:
  assumes "find_loop P rng (Suc n) t k = Some (Inr (res, t'))"
  obtains (blocked) ni nr np k' where
      "pick_new_point P t rng k = Some (Inr (ni, nr, np, k'))"
      "is_collision P nr (Some np) = Some (Inr True)"
      "find_loop P rng n t k' = Some (Inr (res, t'))"
  | (continue) ni nr np k' t1 new_idx t2 where
      "pick_new_point P t rng k = Some (Inr (ni, nr, np, k'))"
      "is_collision P nr (Some np) = Some (Inr False)"
      "extend P t ni nr np = Some (Inr (t1, new_idx))"
      "connect_goal P t1 new_idx np = Some (Inr (t2, None))"
      "find_loop P rng n t2 k' = Some (Inr (res, t'))"
  | (connected) ni nr np k' t1 new_idx path where
      "pick_new_point P t rng k = Some (Inr (ni, nr, np, k'))"
      "is_collision P nr (Some np) = Some (Inr False)"
      "extend P t ni nr np = Some (Inr (t1, new_idx))"
      "connect_goal P t1 new_idx np = Some (Inr (t', Some path))"
      "res = Some path"
proof -
  from assms obtain ni nr np k' blocked where
    pick: "pick_new_point P t rng k = Some (Inr (ni, nr, np, k'))"
    and b: "is_collision P nr (Some np) = Some (Inr blocked)"
    and rest: "(if \<not> blocked
               then bind_r (extend P t ni nr np)
                      (\<lambda>e. bind_r (connect_goal P (fst e) (snd e) np)
                         (\<lambda>r. case snd r of
                                 Some path \<Rightarrow> return (Some path, fst r)
                               | None \<Rightarrow> find_loop P rng n (fst r) k'))
               else find_loop P rng n t k') = Some (Inr (res, t'))"
    by (auto simp: run_Inr split: prod.splits)
  show ?thesis
  proof (cases blocked)
    case True
    then show ?thesis using blocked[OF pick] b rest by simp
  next
    case False
    with rest obtain e r where
      ext0: "extend P t ni nr np = Some (Inr e)"
      and con0: "connect_goal P (fst e) (snd e) np = Some (Inr r)"
      and fin0: "(case snd r of Some path \<Rightarrow> return (Some path, fst r)
                 | None \<Rightarrow> find_loop P rng n (fst r) k') = Some (Inr (res, t'))"
      by (auto simp: run_Inr)
    obtain t1 new_idx where e: "e = (t1, new_idx)" by (cases e)
    obtain t2 r2 where r: "r = (t2, r2)" by (cases r)
    have ext: "extend P t ni nr np = Some (Inr (t1, new_idx))" using ext0 e by simp
    have con: "connect_goal P t1 new_idx np = Some (Inr (t2, r2))" using con0 e r by simp
    have free: "is_collision P nr (Some np) = Some (Inr False)" using b False by simp
    show ?thesis
    proof (cases r2)
      case None
      then have "find_loop P rng n t2 k' = Some (Inr (res, t'))" using fin0 r by simp
      then show ?thesis using continue[OF pick free ext] con None by simp
    next
      case (Some path)
      then have "res = Some path" "t' = t2" using fin0 r by auto
      then show ?thesis using connected[OF pick free ext] con Some by simp
    qed
  qed
qed

lemma find_loop_None_exhausts:
  "find_loop P rng n t k = Some (Inr (None, t')) \<Longrightarrow> exhausts P rng n t k t'"
proof (induction n arbitrary: t k)
  case 0
  then show ?case by (simp add: exhausts.budget_spent)
next
  case (Suc n)
  from Suc.prems show ?case
  proof (cases rule: find_loop_Suc_cases)
    case (blocked ni nr np k')
    from exhausts.segment_blocked[OF blocked(1,2) Suc.IH[OF blocked(3)]] show ?thesis .
  next
    case (continue ni nr np k' t1 new_idx t2)
    from exhausts.not_connected[OF continue(1,2,3,4) Suc.IH[OF continue(5)]] show ?thesis .
  next
    case (connected ni nr np k' t1 new_idx path)
    then show ?thesis by simp
  qed
qed

lemma exhausts_find_loop_None:
  "exhausts P rng n t k t' \<Longrightarrow> find_loop P rng n t k = Some (Inr (None, t'))"
  by (induction rule: exhausts.induct) (simp_all add: bind_r_def return_def)

lemma walk_parents_unfold:
  "walk_parents t None path = Some (Inr path)"
  "walk_parents t (Some i) path =
     (case nth_r (nodes t) i of Inl e \<Rightarrow> Some (Inl e)
      | Inr p \<Rightarrow>
          (case lookup (parent t) i of Inl e \<Rightarrow> Some (Inl e)
           | Inr nxt \<Rightarrow> walk_parents t nxt (path @ [p])))"
  by (subst walk_parents.simps, simp)+

text \<open>Whatever the tree, a walk that returns has appended the node it started from
  first.\<close>

lemma walk_parents_starts:
  assumes "walk_parents t cur acc = Some (Inr path)"
  shows "\<exists>chain. path = acc @ chain
           \<and> (\<forall>i. cur = Some i \<longrightarrow> i < length (nodes t) \<and> chain \<noteq> [] \<and> hd chain = nodes t ! i)"
proof -
  define Q :: "tree \<Rightarrow> nat option \<Rightarrow> point list \<Rightarrow> py_error + point list \<Rightarrow> bool"
    where "Q t cur acc r \<longleftrightarrow> (\<forall>path. r = Inr path \<longrightarrow> (\<exists>chain. path = acc @ chain
           \<and> (\<forall>i. cur = Some i \<longrightarrow> i < length (nodes t) \<and> chain \<noteq> [] \<and> hd chain = nodes t ! i)))"
    for t cur acc r
  have "Q t cur acc (Inr path)"
  proof (rule walk_parents.raw_induct[OF _ assms])
    fix f t' cur' acc' r
    assume IH: "\<And>t cur acc r. f t cur acc = Some r \<Longrightarrow> Q t cur acc r"
      and body: "(case cur' of
          None \<Rightarrow> Some (Inr acc')
        | Some i \<Rightarrow>
            (case nth_r (nodes t') i of Inl e \<Rightarrow> Some (Inl e)
             | Inr p \<Rightarrow>
                 (case lookup (parent t') i of Inl e \<Rightarrow> Some (Inl e)
                  | Inr nxt \<Rightarrow> f t' nxt (acc' @ [p])))) = Some r"
    show "Q t' cur' acc' r"
    proof (cases cur')
      case None
      then show ?thesis using body by (auto simp: Q_def)
    next
      case (Some i)
      show ?thesis
        unfolding Q_def
      proof (intro allI impI)
        fix path assume r: "r = Inr path"
        from body[unfolded Some r] obtain nxt where
          i: "i < length (nodes t')" and run: "f t' nxt (acc' @ [nodes t' ! i]) = Some (Inr path)"
          by (auto simp: run_Inr)
        from IH[OF run] obtain chain where "path = (acc' @ [nodes t' ! i]) @ chain"
          by (auto simp: Q_def)
        then have "path = acc' @ (nodes t' ! i # chain)" by simp
        then show "\<exists>chain. path = acc' @ chain
           \<and> (\<forall>j. cur' = Some j \<longrightarrow> j < length (nodes t') \<and> chain \<noteq> [] \<and> hd chain = nodes t' ! j)"
          using Some i by (intro exI[of _ "nodes t' ! i # chain"]) simp
      qed
    qed
  qed
  then show ?thesis by (simp add: Q_def)
qed


text \<open>Whatever the path, a simplification that returns ends at the last point.\<close>

lemma simplify_loop_last:
  assumes "simplify_loop P path new_path idx = Some (Inr sp)" and "new_path \<noteq> []"
  shows "sp \<noteq> [] \<and> last sp = last path"
proof -
  define Q :: "((planner \<times> point list) \<times> point list) \<times> nat \<Rightarrow> py_error + point list \<Rightarrow> bool"
    where "Q x r \<longleftrightarrow> (\<forall>sp. r = Inr sp \<longrightarrow> snd (fst x) \<noteq> [] \<longrightarrow>
                            sp \<noteq> [] \<and> last sp = last (snd (fst (fst x))))" for x r
  have "Q (((P, path), new_path), idx) (Inr sp)"
  proof (rule simplify_loop.raw_induct[OF _ assms(1)])
    fix f P' path' np idx' r
    assume IH: "\<And>P' path np idx r. f P' path np idx = Some r \<Longrightarrow> Q (((P', path), np), idx) r"
      and body: "(if last np \<noteq> last path'
          then bind_r (shortcut P' (last np) (last path') (drop idx' path') (last np) idx')
                 (\<lambda>r. f P' path' (case fst r of None \<Rightarrow> np | Some s \<Rightarrow> np @ [s]) (snd r))
          else Some (Inr np)) = Some r"
    show "Q (((P', path'), np), idx') r"
    proof (cases "last np \<noteq> last path'")
      case False
      then show ?thesis using body by (auto simp: Q_def)
    next
      case True
      show ?thesis
        unfolding Q_def
      proof (intro allI impI)
        fix sp' assume r: "r = Inr sp'" and ne: "snd (fst (((P', path'), np), idx')) \<noteq> []"
        from body[unfolded r] True obtain u where
          run: "f P' path' (case fst u of None \<Rightarrow> np | Some s \<Rightarrow> np @ [s]) (snd u) = Some (Inr sp')"
          by (auto simp: run_Inr)
        have "(case fst u of None \<Rightarrow> np | Some s \<Rightarrow> np @ [s]) \<noteq> []"
          using ne by (cases "fst u") simp_all
        with IH[OF run]
        show "sp' \<noteq> [] \<and> last sp' = last (snd (fst (fst (((P', path'), np), idx'))))"
          by (simp add: Q_def)
      qed
    qed
  qed
  then show ?thesis using assms(2) by (simp add: Q_def)
qed

lemma reconstruct_path_last:
  assumes "reconstruct_path P t goal_idx = Some (Inr path)"
  shows "goal_idx < length (nodes t) \<and> path \<noteq> [] \<and> last path = nodes t ! goal_idx"
proof -
  from assms obtain raw where
    w: "walk_parents t (Some goal_idx) [] = Some (Inr raw)"
    and s: "(if simplify P then simplify_path P (rev raw) else return (rev raw)) = Some (Inr path)"
    by (auto simp: reconstruct_path_def run_Inr)
  from walk_parents_starts[OF w] have g: "goal_idx < length (nodes t)"
    and raw: "raw \<noteq> []" "hd raw = nodes t ! goal_idx" by auto
  then have lr: "last (rev raw) = nodes t ! goal_idx" by (simp add: last_rev)
  show ?thesis
  proof (cases "simplify P")
    case False
    then show ?thesis using s g raw lr by auto
  next
    case True
    obtain p0 rest where p: "rev raw = p0 # rest" using raw(1) by (cases "rev raw") auto
    from s True have "simplify_loop P (rev raw) [p0] 1 = Some (Inr path)"
      by (simp add: simplify_path_def p)
    from simplify_loop_last[OF this] lr g show ?thesis by simp
  qed
qed

lemma connect_goal_path:
  assumes "connect_goal P t new_idx new_point = Some (Inr (t', Some path))"
  shows "path \<noteq> [] \<and> last path = goal P"
proof -
  from assms obtain cn pc where
    "reconstruct_path P (t\<lparr>nodes := nodes t @ [goal P],
                           parent := (parent t)(length (nodes t) \<mapsto> Some new_idx),
                           cost := (cost t)(length (nodes t) \<mapsto> cn + pc)\<rparr>)
       (length (nodes t)) = Some (Inr path)"
    by (auto simp: connect_goal_def Let_def run_Inr split: if_splits)
  from reconstruct_path_last[OF this] show ?thesis by simp
qed

lemma find_loop_path:
  "find_loop P rng n t k = Some (Inr (Some path, t')) \<Longrightarrow> path \<noteq> [] \<and> last path = goal P"
proof (induction n arbitrary: t k)
  case 0
  then show ?case by simp
next
  case (Suc n)
  from Suc.prems show ?case
  proof (cases rule: find_loop_Suc_cases)
    case (blocked ni nr np k')
    from Suc.IH[OF blocked(3)] show ?thesis .
  next
    case (continue ni nr np k' t1 new_idx t2)
    from Suc.IH[OF continue(5)] show ?thesis .
  next
    case (connected ni nr np k' t1 new_idx path')
    then show ?thesis using connect_goal_path[OF connected(4)] by simp
  qed
qed

text \<open>In a tree that satisfies the invariant the walk to the root ends, and the raw
  path it yields has only segments that passed the collision check.\<close>

lemma walk_parents_run:
  assumes inv: "tree_inv P t"
  shows "reaches_root (parent t) i \<Longrightarrow> i < length (nodes t)
         \<Longrightarrow> \<exists>chain. walk_parents t (Some i) acc = Some (Inr (acc @ chain))
                 \<and> chain \<noteq> [] \<and> hd chain = nodes t ! i \<and> segments_clear P (rev chain)"
proof (induction arbitrary: acc rule: reaches_root.induct)
  case root
  then have "walk_parents t (Some 0) acc = Some (Inr (acc @ [nodes t ! 0]))"
    by (simp add: walk_parents_unfold nth_r_def lookup_def)
  then show ?case by (intro exI[of _ "[nodes t ! 0]"]) simp
next
  case (step i p)
  from tree_invD(3)[OF inv step.hyps(1)] have p: "p < length (nodes t)"
    and free: "is_collision P (nodes t ! p) (Some (nodes t ! i)) = Some (Inr False)" by simp_all
  from step.IH[OF p, of "acc @ [nodes t ! i]"] obtain chain where
    c: "walk_parents t (Some p) (acc @ [nodes t ! i]) = Some (Inr ((acc @ [nodes t ! i]) @ chain))"
      "chain \<noteq> []" "hd chain = nodes t ! p" "segments_clear P (rev chain)" by blast
  have "walk_parents t (Some i) acc = Some (Inr (acc @ (nodes t ! i # chain)))"
    using c(1) step.hyps(1) step.prems by (simp add: walk_parents_unfold nth_r_def lookup_def)
  moreover have "segments_clear P (rev (nodes t ! i # chain))"
  proof -
    have "last (rev chain) = nodes t ! p" using c(2,3) by (simp add: last_rev)
    then have "segments_clear P (rev chain @ [nodes t ! i])"
      using segments_clear_snoc[of "rev chain" P "nodes t ! i"] c(2,4) free by simp
    then show ?thesis by simp
  qed
  ultimately show ?case by (intro exI[of _ "nodes t ! i # chain"]) simp
qed

lemma reconstruct_path_total:
  assumes "tree_inv P t" and "i < length (nodes t)"
  shows "\<exists>r. reconstruct_path P t i = Some r"
proof -
  from walk_parents_run[OF assms(1) tree_invD(4)[OF assms] assms(2), of "[]"]
  obtain chain where c: "walk_parents t (Some i) [] = Some (Inr chain)" "chain \<noteq> []"
    "segments_clear P (rev chain)" by auto
  show ?thesis
  proof (cases "simplify P")
    case True
    have "rev chain \<noteq> []" using c(2) by simp
    from simplify_path_run[OF this c(3)] obtain r where "simplify_path P (rev chain) = Some r"
      by blast
    then show ?thesis using c(1) True by (simp add: reconstruct_path_def bind_r_def)
  next
    case False
    then show ?thesis using c(1) by (simp add: reconstruct_path_def bind_r_def return_def)
  qed
qed

lemma is_collision_free_scale:
  assumes "is_collision P a (Some b) = Some (Inr False)"
  shows "grid_scale P \<noteq> 0"
proof
  assume z: "grid_scale P = 0"
  have "to_cell P a = Inl (if fst a = 0 then ValueError else OverflowError)"
    using z by (simp add: to_cell_def grid_index_def)
  then show False using assms by (simp add: is_collision_def split: if_splits)
qed

section \<open>A third iteration that connects to the goal\<close>

lemma line_free3:
  "is_collision line_planner (5 / 2, 1 / 2) (Some (7 / 2, 1 / 2)) = Some (Inr False)"
  "is_collision line_planner (7 / 2, 1 / 2) (Some (7 / 2, 1 / 2)) = Some (Inr False)"
  "is_collision line_planner (1 / 2, 1 / 2) (Some (5 / 2, 1 / 2)) = Some (Inr False)"
  "is_collision line_planner (1 / 2, 1 / 2) (Some (7 / 2, 1 / 2)) = Some (Inr False)"
  by (simp_all add: line_planner_def eval_collision)

lemma line_cost3:
  "path_cost line_planner (5 / 2, 1 / 2) (7 / 2, 1 / 2) = Some (Inr 1)"
  "path_cost line_planner (7 / 2, 1 / 2) (7 / 2, 1 / 2) = Some (Inr 0)"
  by (simp_all add: path_cost_def line_planner_def uniform_grid_def eval_cells dist_pt_horizontal)

lemma line_cand3:
  "candidate line_planner line_tree2 always_goal k
   = Some (Inr (Suc (Suc 0), (5 / 2, 1 / 2), (7 / 2, 1 / 2), Suc k))"
  by (simp add: eval_pick line_tree2_def line_sel numeral_2_eq_2)

lemma line_pick3:
  "pick_new_point line_planner line_tree2 always_goal k
   = Some (Inr (Suc (Suc 0), (5 / 2, 1 / 2), (7 / 2, 1 / 2), Suc k))"
  by (subst pick_new_point_step[OF line_cand3]) (simp add: eval_pick line_sel)

lemma line_ext3:
  "extend line_planner line_tree2 (Suc (Suc 0)) (5 / 2, 1 / 2) (7 / 2, 1 / 2)
   = Some (Inr (line_tree3, Suc (Suc (Suc 0))))"
  by (simp add: eval_tree line_tree2_def line_tree3_def line_cost line_cost3 line_free line_free3
      line_sel numeral_3_eq_3)

lemma connect_goal_connected:
  assumes "dist_pt (goal P) np < goal_tolerance P"
    and "is_collision P np (Some (goal P)) = Some (Inr False)"
    and "cost t new_idx = Some cn" and "path_cost P np (goal P) = Some (Inr pc)"
  shows "connect_goal P t new_idx np =
           bind_r (reconstruct_path P (with_goal P t new_idx (cn + pc)) (length (nodes t)))
             (\<lambda>path. return (with_goal P t new_idx (cn + pc), Some path))"
  using assms by (simp add: connect_goal_def with_goal_def Let_def lookup_def bind_r_def)

lemma connect_goal_continue:
  assumes "\<not> dist_pt (goal P) np < goal_tolerance P
           \<or> is_collision P np (Some (goal P)) = Some (Inr True)"
  shows "connect_goal P t new_idx np = Some (Inr (t, None))"
  using assms by (auto simp: connect_goal_def bind_r_def return_def)

lemma line_walk:
  "walk_parents (with_goal line_planner line_tree3 (Suc (Suc (Suc 0))) 3)
     (Some (length (nodes line_tree3))) []
   = Some (Inr [(7 / 2, 1 / 2), (7 / 2, 1 / 2), (5 / 2, 1 / 2), (3 / 2, 1 / 2), (1 / 2, 1 / 2)])"
  by (simp add: walk_parents_unfold with_goal_def line_tree3_def line_sel nth_r_def lookup_def
      numeral_2_eq_2 numeral_3_eq_3)

lemma line_simplify:
  "simplify_path line_planner
     [(1 / 2, 1 / 2), (3 / 2, 1 / 2), (5 / 2, 1 / 2), (7 / 2, 1 / 2), (7 / 2, 1 / 2)]
   = Some (Inr [(1 / 2, 1 / 2), (7 / 2, 1 / 2)])"
proof -
  let ?path = "[(1 / 2, 1 / 2), (3 / 2, 1 / 2), (5 / 2, 1 / 2), (7 / 2, 1 / 2), (7 / 2, 1 / 2 :: real)]"
  have s1: "shortcut line_planner (1 / 2, 1 / 2) (7 / 2, 1 / 2)
              [(3 / 2, 1 / 2), (5 / 2, 1 / 2), (7 / 2, 1 / 2), (7 / 2, 1 / 2)] (1 / 2, 1 / 2) 1
            = Some (Inr (Some (7 / 2, 1 / 2), 4))"
    by (simp add: line_free line_free3 bind_r_def return_def)
  have "simplify_path line_planner ?path = simplify_loop line_planner ?path [(1 / 2, 1 / 2)] 1"
    by (simp add: simplify_path_def)
  also have "\<dots> = simplify_loop line_planner ?path [(1 / 2, 1 / 2), (7 / 2, 1 / 2)] 4"
    using s1 by (subst simplify_loop_unfold(2)[where app = "Some (7 / 2, 1 / 2)" and idx' = 4])
      simp_all
  also have "\<dots> = Some (Inr [(1 / 2, 1 / 2), (7 / 2, 1 / 2)])"
    by (subst simplify_loop_unfold(1)) simp_all
  finally show ?thesis .
qed

lemma line_reconstruct:
  "reconstruct_path line_planner (with_goal line_planner line_tree3 (Suc (Suc (Suc 0))) 3)
     (length (nodes line_tree3))
   = Some (Inr [(1 / 2, 1 / 2), (7 / 2, 1 / 2)])"
  by (simp add: reconstruct_path_def line_walk line_simplify bind_r_def line_sel)

lemma line_con3:
  "connect_goal line_planner line_tree3 (Suc (Suc (Suc 0))) (7 / 2, 1 / 2)
   = Some (Inr (with_goal line_planner line_tree3 (Suc (Suc (Suc 0))) 3,
                Some [(1 / 2, 1 / 2), (7 / 2, 1 / 2)]))"
proof -
  have d: "dist_pt (goal line_planner) (7 / 2, 1 / 2) < goal_tolerance line_planner"
    by (simp add: line_sel goal_tolerance_def dist_pt_horizontal)
  have f: "is_collision line_planner (7 / 2, 1 / 2) (Some (goal line_planner)) = Some (Inr False)"
    by (simp add: line_sel line_free3)
  have c: "cost line_tree3 (Suc (Suc (Suc 0))) = Some 3"
    by (simp add: line_tree3_def numeral_3_eq_3)
  have p: "path_cost line_planner (7 / 2, 1 / 2) (goal line_planner) = Some (Inr 0)"
    by (simp add: line_sel line_cost3)
  show ?thesis
    by (subst connect_goal_connected[OF d f c p]) (simp add: line_reconstruct bind_r_def return_def)
qed

lemma line_run3:
  "find_loop line_planner always_goal (Suc 0) line_tree2 k
   = Some (Inr (Some [(1 / 2, 1 / 2), (7 / 2, 1 / 2)],
                with_goal line_planner line_tree3 (Suc (Suc (Suc 0))) 3))"
  by (simp add: line_pick3 line_free3 line_ext3 line_con3 bind_r_def return_def)

section \<open>Properties of \<open>find_path\<close>\<close>

lemma line_nonneg: "grid_nonneg line_planner"
  by (simp add: grid_nonneg_def line_planner_def uniform_grid_def list_all_iff)

text \<open>
  C2. On a grid without negative costs, the tree that \<open>find_path\<close> leaves after any
  number \<open>n\<close> of iterations of its main loop, started from the tree of the constructor,
  has a root 0 whose parent is \<open>None\<close>; following the parent pointers from any of its
  nodes reaches that root in finitely many steps, and no node is an ancestor of its
  own parent. The lemmas \<open>add_node_inv\<close> and \<open>rewire_update_inv\<close> show the same for
  the tree after the parent selection and after every single rewiring.
\<close>

theorem parent_relation_acyclic:
  assumes "grid_nonneg P" and "find_loop P rng n (init_tree P) 0 = Some (Inr (res, t))"
  shows "\<forall>i < length (nodes t).
           parent t 0 = Some None \<and> reaches_root (parent t) i
           \<and> (\<forall>p. parent t i = Some (Some p) \<longrightarrow> \<not> ancestor (parent t) i p)"
proof (intro allI impI)
  fix i assume "i < length (nodes t)"
  have "tree_inv P t" using find_loop_inv[OF assms(1,2) tree_inv_init] .
  from tree_invD(4)[OF this \<open>i < length (nodes t)\<close>] have r: "reaches_root (parent t) i" .
  show "parent t 0 = Some None \<and> reaches_root (parent t) i
           \<and> (\<forall>p. parent t i = Some (Some p) \<longrightarrow> \<not> ancestor (parent t) i p)"
    using r reaches_root_root[OF r] reaches_root_no_cycle[OF r] by blast
qed

theorem parent_relation_acyclic_witness:
  "grid_nonneg line_planner
   \<and> find_loop line_planner always_goal 2 (init_tree line_planner) 0
       = Some (Inr (None, line_tree2))
   \<and> length (nodes line_tree2) = 3
   \<and> parent line_tree2 0 = Some None
   \<and> reaches_root (parent line_tree2) 0
   \<and> reaches_root (parent line_tree2) 1
   \<and> reaches_root (parent line_tree2) 2
   \<and> parent line_tree2 2 = Some (Some 1)
   \<and> \<not> ancestor (parent line_tree2) 2 1"
proof -
  have l: "length (nodes line_tree2) = 3" by (simp add: line_tree2_def)
  have p: "parent line_tree2 2 = Some (Some 1)" by (simp add: line_tree2_def)
  note a = parent_relation_acyclic[OF line_nonneg line_run, unfolded l, rule_format]
  have "(0::nat) < 3" "(1::nat) < 3" "(2::nat) < 3" by simp_all
  from a[OF this(1)] a[OF this(2)] a[OF this(3)] p line_nonneg line_run l
  show ?thesis by blast
qed

text \<open>
  C4. \<open>find_path\<close> returns \<open>None\<close> exactly when all its \<open>max_iter\<close> iterations end
  without a connection to the goal: exhausting the budget is reported by the value
  \<open>None\<close>, not by an exception. A path it returns is never partial: it is not empty and
  ends at the goal.
\<close>

theorem budget_exhausted_returns_None:
  "(exhausts P rng (nat (max_iter P)) t 0 t' \<longleftrightarrow> find_path P t rng = Some (Inr (None, t')))
   \<and> (\<forall>path. find_path P t rng = Some (Inr (Some path, t')) \<longrightarrow> path \<noteq> [] \<and> last path = goal P)"
  unfolding find_path_def
  using exhausts_find_loop_None find_loop_None_exhausts find_loop_path by blast


text \<open>Two iterations from the start exhaust the budget of 2; started again from the tree
  of the first iteration, the second of the two iterations connects to the goal.\<close>

theorem budget_exhausted_returns_None_witness:
  "exhausts line_planner always_goal (nat (max_iter line_planner)) (init_tree line_planner) 0
     line_tree2
   \<and> find_path line_planner (init_tree line_planner) always_goal = Some (Inr (None, line_tree2))
   \<and> find_path line_planner line_tree1 always_goal
       = Some (Inr (Some [(1 / 2, 1 / 2), (7 / 2, 1 / 2)],
                    with_goal line_planner line_tree3 (Suc (Suc (Suc 0))) 3))
   \<and> [(1 / 2, 1 / 2), (7 / 2, 1 / 2)] \<noteq> []
   \<and> last [(1 / 2, 1 / 2), (7 / 2, 1 / 2)] = goal line_planner"
proof -
  have a: "find_path line_planner (init_tree line_planner) always_goal
           = Some (Inr (None, line_tree2))"
    using line_run by (simp add: find_path_def line_sel)
  have b: "find_path line_planner line_tree1 always_goal
       = Some (Inr (Some [(1 / 2, 1 / 2), (7 / 2, 1 / 2)],
                    with_goal line_planner line_tree3 (Suc (Suc (Suc 0))) 3))"
    by (simp add: find_path_def line_sel numeral_2_eq_2 line_pick2 line_free line_ext2 line_con2
        line_pick3 line_free3 line_ext3 line_con3 bind_r_def return_def)
  from budget_exhausted_returns_None[of line_planner always_goal "init_tree line_planner" line_tree2]
    budget_exhausted_returns_None[of line_planner always_goal line_tree1
      "with_goal line_planner line_tree3 (Suc (Suc (Suc 0))) 3"] a b
  show ?thesis by simp
qed

text \<open>
  C5. Once a candidate \<open>new_point\<close> is drawn and steered, the point test of the
  collision check returns a truth value \<open>blocked\<close>. If the point is not blocked, the
  loop returns the candidate without reading the grid. If the grid cost of the point
  is \<open>gc\<close>, the loop returns the candidate exactly when the point is not blocked or
  \<open>gc\<close> is below the threshold, and otherwise goes on with the next draw.
\<close>

theorem new_point_gate:
  assumes "candidate P t rng k = Some (Inr (nearest_idx, nearest, new_point, k'))"
  shows "\<exists>blocked. is_collision P new_point None = Some (Inr blocked)
           \<and> (\<not> blocked \<longrightarrow>
                 pick_new_point P t rng k = Some (Inr (nearest_idx, nearest, new_point, k')))
           \<and> (\<forall>gc. get_grid_cost P new_point = Inr gc \<longrightarrow>
                 pick_new_point P t rng k =
                   (if \<not> blocked \<or> gc < traversability_threshold P
                    then Some (Inr (nearest_idx, nearest, new_point, k'))
                    else pick_new_point P t rng k'))"
  by (subst pick_new_point_step[OF assms])+
    (simp add: is_collision_point bind_r_def return_def)

lemma gate_sel:
  "start gate_planner = (1 / 2, 1 / 2)" "goal gate_planner = (7 / 2, 1 / 2)"
  "obstacles gate_planner = [post_obstacle (3 / 2, 1 / 2)]" "step_size gate_planner = 1"
  "traversability_threshold gate_planner = 3 / 4"
  "start closed_planner = (1 / 2, 1 / 2)" "goal closed_planner = (7 / 2, 1 / 2)"
  "obstacles closed_planner = [post_obstacle (3 / 2, 1 / 2)]" "step_size closed_planner = 1"
  "traversability_threshold closed_planner = 3 / 4"
  by (simp_all add: gate_planner_def closed_planner_def line_planner_def)

text \<open>The first candidate lies on the post. On the grid of cost 0 it is accepted all the
  same; on the grid of cost 1 it is rejected and the loop draws again.\<close>

theorem new_point_gate_witness:
  "candidate gate_planner (init_tree gate_planner) always_goal 0
     = Some (Inr (0, (1 / 2, 1 / 2), (3 / 2, 1 / 2), 1))
   \<and> is_collision gate_planner (3 / 2, 1 / 2) None = Some (Inr True)
   \<and> get_grid_cost gate_planner (3 / 2, 1 / 2) = Inr 0
   \<and> pick_new_point gate_planner (init_tree gate_planner) always_goal 0
       = Some (Inr (0, (1 / 2, 1 / 2), (3 / 2, 1 / 2), 1))
   \<and> candidate closed_planner (init_tree closed_planner) always_goal 0
       = Some (Inr (0, (1 / 2, 1 / 2), (3 / 2, 1 / 2), 1))
   \<and> is_collision closed_planner (3 / 2, 1 / 2) None = Some (Inr True)
   \<and> get_grid_cost closed_planner (3 / 2, 1 / 2) = Inr 1
   \<and> pick_new_point closed_planner (init_tree closed_planner) always_goal 0
       = pick_new_point closed_planner (init_tree closed_planner) always_goal 1"
proof -
  have c1: "candidate gate_planner (init_tree gate_planner) always_goal 0
     = Some (Inr (0, (1 / 2, 1 / 2), (3 / 2, 1 / 2), 1))"
    by (simp add: candidate_def always_goal_def bind_r_def return_def nearest_node_def
        nth_r_def steer_def dist_pt_horizontal init_tree_def gate_sel)
  have c2: "candidate closed_planner (init_tree closed_planner) always_goal 0
     = Some (Inr (0, (1 / 2, 1 / 2), (3 / 2, 1 / 2), 1))"
    by (simp add: candidate_def always_goal_def bind_r_def return_def nearest_node_def
        nth_r_def steer_def dist_pt_horizontal init_tree_def gate_sel)
  have b: "is_collision gate_planner (3 / 2, 1 / 2) None = Some (Inr True)"
    "is_collision closed_planner (3 / 2, 1 / 2) None = Some (Inr True)"
    by (simp_all add: is_collision_point hits_obstacle_def gate_sel post_obstacle_def)
  have g: "get_grid_cost gate_planner (3 / 2, 1 / 2) = Inr 0"
    "get_grid_cost closed_planner (3 / 2, 1 / 2) = Inr 1"
    by (simp_all add: get_grid_cost_def gate_planner_def closed_planner_def line_planner_def
        uniform_grid_def grid_index_def py_int_def getitem_def np_index_def)
  from new_point_gate[OF c1] b(1) g(1)
  have p1: "pick_new_point gate_planner (init_tree gate_planner) always_goal 0
       = Some (Inr (0, (1 / 2, 1 / 2), (3 / 2, 1 / 2), 1))"
    by (auto simp: gate_sel)
  from new_point_gate[OF c2] b(2) g(2)
  have p2: "pick_new_point closed_planner (init_tree closed_planner) always_goal 0
       = pick_new_point closed_planner (init_tree closed_planner) always_goal 1"
    by (auto simp: gate_sel)
  from c1 c2 b g p1 p2 show ?thesis by simp
qed

text \<open>
  What the goal check does. \<open>goal_tolerance\<close> is \<open>step_size / 2\<close>. Take an
  iteration, on a grid without negative costs and a tree that satisfies the invariant,
  whose new point is added as node \<open>new_idx\<close>. If the distance from the new point to
  the goal is below \<open>goal_tolerance\<close> and the segment to the goal passes the
  collision check, the goal is appended as a node whose parent is \<open>new_idx\<close>, the
  reconstruction of the path from that node ends, and \<open>find_path\<close> returns the path
  it yields, or raises the exception the simplification raised. If the distance is not
  below the tolerance, or the segment is blocked, the loop goes on with its next
  iteration.
\<close>

lemma goal_check:
  assumes nn: "grid_nonneg P" and inv: "tree_inv P t"
    and pick: "pick_new_point P t rng k = Some (Inr (nearest_idx, nearest, new_point, k'))"
    and free: "is_collision P nearest (Some new_point) = Some (Inr False)"
    and ext: "extend P t nearest_idx nearest new_point = Some (Inr (t1, new_idx))"
  shows "goal_tolerance P = step_size P / 2
     \<and> nodes t1 ! new_idx = new_point
     \<and> (dist_pt (goal P) new_point < goal_tolerance P
          \<and> is_collision P new_point (Some (goal P)) = Some (Inr False) \<longrightarrow>
          (\<exists>c r. nodes (with_goal P t1 new_idx c) = nodes t1 @ [goal P]
             \<and> parent (with_goal P t1 new_idx c) (length (nodes t1)) = Some (Some new_idx)
             \<and> reconstruct_path P (with_goal P t1 new_idx c) (length (nodes t1)) = Some r
             \<and> find_loop P rng (Suc n) t k =
                 (case r of Inl e \<Rightarrow> Some (Inl e)
                  | Inr path \<Rightarrow> Some (Inr (Some path, with_goal P t1 new_idx c)))))
     \<and> (\<not> dist_pt (goal P) new_point < goal_tolerance P
          \<or> is_collision P new_point (Some (goal P)) = Some (Inr True) \<longrightarrow>
          find_loop P rng (Suc n) t k = find_loop P rng n t1 k')"
proof -
  from extend_inv[OF nn inv pick_new_point_nearest[OF pick] free ext]
  have inv1: "tree_inv P t1" and ni: "new_idx = length (nodes t)"
    and nodes1: "nodes t1 = nodes t @ [new_point]" by simp_all
  have new: "new_idx < length (nodes t1)" "nodes t1 ! new_idx = new_point"
    by (simp_all add: ni nodes1)
  have step: "find_loop P rng (Suc n) t k =
      bind_r (connect_goal P t1 new_idx new_point)
        (\<lambda>r. case snd r of Some path \<Rightarrow> return (Some path, fst r)
                          | None \<Rightarrow> find_loop P rng n (fst r) k')"
    by (simp add: pick free ext bind_r_def)
  have A: "\<exists>c r. nodes (with_goal P t1 new_idx c) = nodes t1 @ [goal P]
             \<and> parent (with_goal P t1 new_idx c) (length (nodes t1)) = Some (Some new_idx)
             \<and> reconstruct_path P (with_goal P t1 new_idx c) (length (nodes t1)) = Some r
             \<and> find_loop P rng (Suc n) t k =
                 (case r of Inl e \<Rightarrow> Some (Inl e)
                  | Inr path \<Rightarrow> Some (Inr (Some path, with_goal P t1 new_idx c)))"
    if d: "dist_pt (goal P) new_point < goal_tolerance P"
      and f: "is_collision P new_point (Some (goal P)) = Some (Inr False)"
  proof -
    have "new_idx \<in> dom (cost t1)" using tree_invD(2)[OF inv1] new(1) by simp
    then obtain cn where cn: "cost t1 new_idx = Some cn" by blast
    from path_cost_returns[OF is_collision_free_scale[OF f], of new_point "goal P"]
    obtain pc where pc: "path_cost P new_point (goal P) = Some (Inr pc)" by blast
    let ?t2 = "with_goal P t1 new_idx (cn + pc)"
    have "cn \<le> cn + pc" using path_cost_nonneg[OF nn pc] by simp
    moreover have "is_collision P (nodes t1 ! new_idx) (Some (goal P)) = Some (Inr False)"
      using f new(2) by simp
    ultimately have inv2: "tree_inv P ?t2"
      unfolding with_goal_def using add_node_inv[OF inv1 cn] by blast
    have "length (nodes t1) < length (nodes ?t2)" by (simp add: with_goal_def)
    from reconstruct_path_total[OF inv2 this] obtain r where
      r: "reconstruct_path P ?t2 (length (nodes t1)) = Some r" by blast
    have "find_loop P rng (Suc n) t k =
            (case r of Inl e \<Rightarrow> Some (Inl e) | Inr path \<Rightarrow> Some (Inr (Some path, ?t2)))"
      unfolding step connect_goal_connected[OF d f cn pc] r
      by (cases r) (simp_all add: bind_r_def return_def)
    with r show ?thesis
      by (intro exI[of _ "cn + pc"] exI[of _ r]) (simp add: with_goal_def)
  qed
  have B: "find_loop P rng (Suc n) t k = find_loop P rng n t1 k'"
    if "\<not> dist_pt (goal P) new_point < goal_tolerance P
          \<or> is_collision P new_point (Some (goal P)) = Some (Inr True)"
    unfolding step connect_goal_continue[OF that] by (simp add: bind_r_def)
  show ?thesis using new(2) A B by (simp add: goal_tolerance_def)
qed


text \<open>The third iteration of the run on the free grid adds the goal point itself and
  connects; the first iteration adds a point at distance 2 from the goal and goes on.\<close>

lemma goal_check_example:
  "grid_nonneg line_planner \<and> tree_inv line_planner line_tree2
   \<and> pick_new_point line_planner line_tree2 always_goal 2
       = Some (Inr (Suc (Suc 0), (5 / 2, 1 / 2), (7 / 2, 1 / 2), 3))
   \<and> is_collision line_planner (5 / 2, 1 / 2) (Some (7 / 2, 1 / 2)) = Some (Inr False)
   \<and> extend line_planner line_tree2 (Suc (Suc 0)) (5 / 2, 1 / 2) (7 / 2, 1 / 2)
       = Some (Inr (line_tree3, Suc (Suc (Suc 0))))
   \<and> dist_pt (goal line_planner) (7 / 2, 1 / 2) < goal_tolerance line_planner
   \<and> is_collision line_planner (7 / 2, 1 / 2) (Some (goal line_planner)) = Some (Inr False)
   \<and> (\<exists>c r. parent (with_goal line_planner line_tree3 (Suc (Suc (Suc 0))) c)
                 (length (nodes line_tree3)) = Some (Some (Suc (Suc (Suc 0))))
          \<and> reconstruct_path line_planner (with_goal line_planner line_tree3 (Suc (Suc (Suc 0))) c)
               (length (nodes line_tree3)) = Some r
          \<and> find_loop line_planner always_goal (Suc 0) line_tree2 2 =
               (case r of Inl e \<Rightarrow> Some (Inl e)
                | Inr path \<Rightarrow>
                    Some (Inr (Some path, with_goal line_planner line_tree3 (Suc (Suc (Suc 0))) c))))
   \<and> find_loop line_planner always_goal (Suc 0) line_tree2 2
       = Some (Inr (Some [(1 / 2, 1 / 2), (7 / 2, 1 / 2)],
                    with_goal line_planner line_tree3 (Suc (Suc (Suc 0))) 3))
   \<and> tree_inv line_planner (init_tree line_planner)
   \<and> \<not> dist_pt (goal line_planner) (3 / 2, 1 / 2) < goal_tolerance line_planner
   \<and> find_loop line_planner always_goal (Suc 0) (init_tree line_planner) 0
       = find_loop line_planner always_goal 0 line_tree1 1"
proof -
  have inv: "tree_inv line_planner line_tree2"
    using find_loop_inv[OF line_nonneg line_run tree_inv_init] .
  have pick: "pick_new_point line_planner line_tree2 always_goal 2
       = Some (Inr (Suc (Suc 0), (5 / 2, 1 / 2), (7 / 2, 1 / 2), 3))"
    using line_pick3[of 2] by (simp add: numeral_3_eq_3)
  have d: "dist_pt (goal line_planner) (7 / 2, 1 / 2) < goal_tolerance line_planner"
    by (simp add: line_sel goal_tolerance_def dist_pt_horizontal)
  have f: "is_collision line_planner (7 / 2, 1 / 2) (Some (goal line_planner)) = Some (Inr False)"
    by (simp add: line_sel line_free3)
  have pick1: "pick_new_point line_planner (init_tree line_planner) always_goal 0
       = Some (Inr (0, (1 / 2, 1 / 2), (3 / 2, 1 / 2), 1))"
    using line_pick1[of 0] by simp
  have far: "\<not> dist_pt (goal line_planner) (3 / 2, 1 / 2) < goal_tolerance line_planner"
    by (simp add: line_sel goal_tolerance_def dist_pt_horizontal)
  note a = goal_check[OF line_nonneg inv pick line_free3(1) line_ext3, of 0]
  note b = goal_check[OF line_nonneg tree_inv_init pick1 line_free(1) line_ext1, of 0]
  have c: "\<exists>c r. parent (with_goal line_planner line_tree3 (Suc (Suc (Suc 0))) c)
                 (length (nodes line_tree3)) = Some (Some (Suc (Suc (Suc 0))))
          \<and> reconstruct_path line_planner (with_goal line_planner line_tree3 (Suc (Suc (Suc 0))) c)
               (length (nodes line_tree3)) = Some r
          \<and> find_loop line_planner always_goal (Suc 0) line_tree2 2 =
               (case r of Inl e \<Rightarrow> Some (Inl e)
                | Inr path \<Rightarrow>
                    Some (Inr (Some path, with_goal line_planner line_tree3 (Suc (Suc (Suc 0))) c)))"
    using a d f by blast
  have e: "find_loop line_planner always_goal (Suc 0) (init_tree line_planner) 0
       = find_loop line_planner always_goal 0 line_tree1 1"
    using b far by blast
  show ?thesis
    using line_nonneg inv pick line_free3(1) line_ext3 d f c line_run3[of 2] tree_inv_init far e
    by blast
qed

section \<open>The goal connection (C6)\<close>

lemma dist_pt_vertical: "dist_pt (x, y1) (x, y2) = \<bar>y2 - y1\<bar>"
  by (simp add: dist_pt_def)

lemma sqrt5: "sqrt 5 < 3"
  by (rule real_less_lsqrt) simp_all

lemma ridge_sel:
  "start ridge_planner = (5 / 2, 1 / 2)" "goal ridge_planner = (9 / 2, 1 / 2)"
  "obstacles ridge_planner = []" "step_size ridge_planner = 6"
  "neighbor_radius ridge_planner = 1 / 2" "traversability_threshold ridge_planner = 3 / 4"
  "simplify ridge_planner = True" "max_iter ridge_planner = 1" "grid_scale ridge_planner = 1"
  "grid ridge_planner = uniform_grid 2 5 0"
  by (simp_all add: ridge_planner_def)

lemma ridge_checks:
  "is_collision ridge_planner (5 / 2, 1 / 2) (Some (5 / 2, 3 / 2)) = Some (Inr False)"
  "is_collision ridge_planner (5 / 2, 3 / 2) (Some (9 / 2, 1 / 2)) = Some (Inr False)"
  "is_collision ridge_planner (5 / 2, 1 / 2) (Some (9 / 2, 1 / 2)) = Some (Inl IndexError)"
  by (simp_all add: ridge_planner_def eval_collision)

lemma ridge_cost:
  "path_cost ridge_planner (5 / 2, 1 / 2) (5 / 2, 3 / 2) = Some (Inr 1)"
  "path_cost ridge_planner (5 / 2, 3 / 2) (9 / 2, 1 / 2) = Some (Inr (sqrt 5))"
  by (simp_all add: path_cost_def ridge_planner_def uniform_grid_def eval_cells dist_pt_vertical
      dist_pt_def)

lemma ridge_sample:
  "sample_point ridge_planner ridge_draws (Suc 0) = Some (Inr ((5 / 2, 3 / 2), 3))"
  by (subst sample_point.simps)
    (simp add: Let_def uniform_def ridge_draws_def ridge_sel get_grid_cost_def grid_index_def
      py_int_def getitem_def np_index_def uniform_grid_def is_collision_point hits_obstacle_def bind_r_def return_def)


lemma ridge_cand:
  "candidate ridge_planner (init_tree ridge_planner) ridge_draws 0
   = Some (Inr (0, (5 / 2, 1 / 2), (5 / 2, 3 / 2), 3))"
  by (simp add: candidate_def ridge_sample bind_r_def return_def nearest_node_def nth_r_def
      steer_def dist_pt_vertical init_tree_def ridge_sel ridge_draws_def)

lemma ridge_pick:
  "pick_new_point ridge_planner (init_tree ridge_planner) ridge_draws 0
   = Some (Inr (0, (5 / 2, 1 / 2), (5 / 2, 3 / 2), 3))"
  by (subst pick_new_point_step[OF ridge_cand])
    (simp add: is_collision_point hits_obstacle_def ridge_sel bind_r_def return_def)

lemma ridge_ext:
  "extend ridge_planner (init_tree ridge_planner) 0 (5 / 2, 1 / 2) (5 / 2, 3 / 2)
   = Some (Inr (ridge_tree1, Suc 0))"
  by (simp add: extend_def Let_def lookup_def nth_r_def bind_r_def return_def get_near_nodes_def
      dist_pt_vertical init_tree_def ridge_tree1_def ridge_cost ridge_checks ridge_sel)

lemma ridge_near_goal:
  "dist_pt (goal ridge_planner) (5 / 2, 3 / 2) < goal_tolerance ridge_planner"
proof -
  have "dist_pt (goal ridge_planner) (5 / 2, 3 / 2) = sqrt 5"
    by (simp add: dist_pt_def ridge_sel)
  then show ?thesis using sqrt5 by (simp add: goal_tolerance_def ridge_sel)
qed

lemma ridge_walk:
  "walk_parents (with_goal ridge_planner ridge_tree1 (Suc 0) c) (Some (length (nodes ridge_tree1))) []
   = Some (Inr [(9 / 2, 1 / 2), (5 / 2, 3 / 2), (5 / 2, 1 / 2)])"
  by (simp add: walk_parents_unfold with_goal_def ridge_tree1_def ridge_sel nth_r_def lookup_def)

lemma ridge_simplify:
  "simplify_path ridge_planner [(5 / 2, 1 / 2), (5 / 2, 3 / 2), (9 / 2, 1 / 2)]
   = Some (Inl IndexError)"
proof -
  have "shortcut ridge_planner (5 / 2, 1 / 2) (9 / 2, 1 / 2)
          [(5 / 2, 3 / 2), (9 / 2, 1 / 2)] (5 / 2, 1 / 2) 1 = Some (Inl IndexError)"
    by (simp add: ridge_checks bind_r_def)
  then show ?thesis
    by (simp add: simplify_path_def) (subst simplify_loop.simps, simp add: bind_r_def)
qed

lemma ridge_reconstruct:
  "reconstruct_path ridge_planner (with_goal ridge_planner ridge_tree1 (Suc 0) c)
     (length (nodes ridge_tree1)) = Some (Inl IndexError)"
  by (simp add: reconstruct_path_def ridge_walk ridge_simplify bind_r_def ridge_sel)

lemma ridge_connect:
  "connect_goal ridge_planner ridge_tree1 (Suc 0) (5 / 2, 3 / 2) = Some (Inl IndexError)"
proof -
  have f: "is_collision ridge_planner (5 / 2, 3 / 2) (Some (goal ridge_planner)) = Some (Inr False)"
    by (simp add: ridge_sel ridge_checks)
  have c: "cost ridge_tree1 (Suc 0) = Some 1" by (simp add: ridge_tree1_def)
  have p: "path_cost ridge_planner (5 / 2, 3 / 2) (goal ridge_planner) = Some (Inr (sqrt 5))"
    by (simp add: ridge_sel ridge_cost)
  show ?thesis
    by (subst connect_goal_connected[OF ridge_near_goal f c p])
      (simp add: ridge_reconstruct bind_r_def)
qed

lemma ridge_run:
  "find_path ridge_planner (init_tree ridge_planner) ridge_draws = Some (Inl IndexError)"
  by (simp add: find_path_def ridge_sel ridge_pick ridge_checks ridge_ext ridge_connect bind_r_def)

text \<open>
  C6. The specification says that, once a new node is added whose distance to the goal
  is within \<open>goal_tolerance\<close> (\<open>step_size / 2\<close>) and whose segment to the goal is
  unblocked, \<open>find_path\<close> appends the goal and returns the reconstructed path. On the
  free grid of 2 rows and 5 columns, with start (2.5, 0.5), goal (4.5, 0.5), step size 6
  and the draws 0.5, 0.5, 0.75, the first iteration adds the node (2.5, 1.5); its
  distance to the goal is below the tolerance 3 and its segment to the goal passes the
  collision check. The simplification of the path then checks the segment from the
  start to the goal, whose cell (3, 0) lies on the boundary: \<open>_is_collision\<close> reads
  \<open>grid[2, -1]\<close> for it, and \<open>find_path\<close> raises \<open>IndexError\<close> instead of returning
  the path.
\<close>

theorem find_path_raises_at_goal_connection:
  "goal_tolerance ridge_planner = 3
   \<and> pick_new_point ridge_planner (init_tree ridge_planner) ridge_draws 0
       = Some (Inr (0, (5 / 2, 1 / 2), (5 / 2, 3 / 2), 3))
   \<and> is_collision ridge_planner (5 / 2, 1 / 2) (Some (5 / 2, 3 / 2)) = Some (Inr False)
   \<and> extend ridge_planner (init_tree ridge_planner) 0 (5 / 2, 1 / 2) (5 / 2, 3 / 2)
       = Some (Inr (ridge_tree1, 1))
   \<and> dist_pt (goal ridge_planner) (5 / 2, 3 / 2) < goal_tolerance ridge_planner
   \<and> is_collision ridge_planner (5 / 2, 3 / 2) (Some (goal ridge_planner)) = Some (Inr False)
   \<and> bresenham (2, 0) (4, 0) = Some [(2, 0), (3, 0)]
   \<and> getitem (grid ridge_planner) 2 (- 1) = Inl IndexError
   \<and> is_collision ridge_planner (start ridge_planner) (Some (goal ridge_planner))
       = Some (Inl IndexError)
   \<and> connect_goal ridge_planner ridge_tree1 1 (5 / 2, 3 / 2) = Some (Inl IndexError)
   \<and> find_path ridge_planner (init_tree ridge_planner) ridge_draws = Some (Inl IndexError)"
proof -
  have "goal_tolerance ridge_planner = 3" by (simp add: goal_tolerance_def ridge_sel)
  moreover have "bresenham (2, 0) (4, 0) = Some [(2, 0), (3, 0)]" by (simp add: eval_cells)
  moreover have "getitem (grid ridge_planner) 2 (- 1) = Inl IndexError"
    by (simp add: ridge_sel uniform_grid_def getitem_def np_index_def)
  ultimately show ?thesis
    using ridge_pick ridge_checks ridge_ext ridge_near_goal ridge_connect ridge_run
    by (simp add: ridge_sel)
qed

end
